theory Spec2Isabelle
  imports Complex_Main "HOL-Library.AList" "HOL-Library.Sublist"
begin

chapter \<open>LocalFlare: playground worker, core launcher and dashboard helpers\<close>

text \<open>
  A shallow embedding of the parts of the repository that its specification makes
  statements about: the playground worker (the \<open>Counter\<close> durable object and the
  read-by-key REST routes), the option object that \<open>LocalFlare.start\<close> hands to the
  emulator, the dummy-row generator of the D1 browser and the file-tree builder of
  the R2 browser.

  Conventions. JavaScript strings are modelled as \<open>string\<close> (lists of characters);
  JavaScript numbers that the code only ever counts with are whole-number doubles
  and are modelled by the integers they denote, with the rounding of double
  arithmetic beyond \<open>2^53\<close> written out; a value that may be
  \<open>null\<close> or \<open>undefined\<close> is an \<open>option\<close>; a thrown exception is the left
  summand of a sum type. Platform services (storage, bindings, the random sources) are
  not code of the repository: they appear as explicit state or as parameters.
\<close>

section \<open>JavaScript strings\<close>

text \<open>
  The string methods the modelled code calls. Letter case is mapped on the ASCII
  letters; other characters are left as they are.
\<close>

definition toUpperChar :: "char \<Rightarrow> char" where
  "toUpperChar c =
     (case map_of (zip ''abcdefghijklmnopqrstuvwxyz'' ''ABCDEFGHIJKLMNOPQRSTUVWXYZ'') c of
        Some u \<Rightarrow> u | None \<Rightarrow> c)"

definition toLowerChar :: "char \<Rightarrow> char" where
  "toLowerChar c =
     (case map_of (zip ''ABCDEFGHIJKLMNOPQRSTUVWXYZ'' ''abcdefghijklmnopqrstuvwxyz'') c of
        Some l \<Rightarrow> l | None \<Rightarrow> c)"

definition toUpperCase :: "string \<Rightarrow> string" where
  "toUpperCase s = map toUpperChar s"

definition toLowerCase :: "string \<Rightarrow> string" where
  "toLowerCase s = map toLowerChar s"

definition startsWith :: "string \<Rightarrow> string \<Rightarrow> bool" where
  "startsWith s p = (take (length p) s = p)"

definition endsWith :: "string \<Rightarrow> string \<Rightarrow> bool" where
  "endsWith s p = (length p \<le> length s \<and> drop (length s - length p) s = p)"

text \<open>\<open>s.includes(p)\<close> (the word \<open>includes\<close> is reserved): \<open>p\<close> occurs in \<open>s\<close> at some position.\<close>

fun str_includes :: "string \<Rightarrow> string \<Rightarrow> bool" where
  "str_includes [] p = (p = [])"
| "str_includes (c # cs) p = (startsWith (c # cs) p \<or> str_includes cs p)"

text \<open>\<open>s.split(sep)\<close> for a separator of one character: the pieces between the
  separators, empty pieces included; never the empty list.\<close>

fun split :: "string \<Rightarrow> char \<Rightarrow> string list" where
  "split [] sep = [[]]"
| "split (c # cs) sep =
     (if c = sep then [] # split cs sep
      else (c # hd (split cs sep)) # tl (split cs sep))"

text \<open>\<open>parts.join(sep)\<close>\<close>

fun join :: "string list \<Rightarrow> string \<Rightarrow> string" where
  "join [] sep = []"
| "join [p] sep = p"
| "join (p # q # ps) sep = p @ sep @ join (q # ps) sep"

text \<open>\<open>s.replace(p, '')\<close> with a string pattern: the first occurrence of \<open>p\<close> is
  removed, the rest of the string is kept.\<close>

fun replace_first :: "string \<Rightarrow> string \<Rightarrow> string" where
  "replace_first [] p = []"
| "replace_first (c # cs) p =
     (if startsWith (c # cs) p then drop (length p) (c # cs) else c # replace_first cs p)"

section \<open>Responses\<close>

datatype json =
    JNull
  | JNum int
  | JStr string
  | JObj "(string \<times> json) list"

datatype body = Json json | Stream string

record Response =
  status :: nat
  headers :: "(string \<times> string) list"
  body :: body

text \<open>\<open>Response.json(data)\<close> and Hono's \<open>c.json(data, status)\<close>.\<close>

definition Response_json :: "json \<Rightarrow> nat \<Rightarrow> Response" where
  "Response_json data st =
     \<lparr>status = st, headers = [(''Content-Type'', ''application/json'')], body = Json data\<rparr>"

text \<open>A thrown exception, by its message.\<close>

datatype error = Error string

section \<open>The Counter durable object\<close>

text \<open>
  JavaScript numbers are IEEE 754 doubles. The counter only ever holds whole numbers (it
  stores \<open>0\<close> and what \<open>++\<close> and \<open>--\<close> make of a stored number), so a number is modelled
  by the integer it denotes, and \<open>to_double n\<close> is the double that an addition or
  subtraction with the exact result \<open>n\<close> returns: \<open>n\<close> itself up to magnitude \<open>2 ^ 53\<close>,
  and beyond it \<open>n\<close> rounded to 53 significant bits, a tie going to the even
  significand. (Adding or subtracting 1 never leaves the range of the finite doubles.)
\<close>

function bit_length :: "int \<Rightarrow> nat" where
  "bit_length n = (if n \<le> 0 then 0 else Suc (bit_length (n div 2)))"
  by pat_completeness auto

termination bit_length
  by (relation "measure nat") auto

declare bit_length.simps [simp del]

definition to_double :: "int \<Rightarrow> int" where
  "to_double n =
     (if \<bar>n\<bar> \<le> 2 ^ 53 then n
      else
        (let e = bit_length \<bar>n\<bar> - 53;
             q = \<bar>n\<bar> div 2 ^ e;
             r = \<bar>n\<bar> mod 2 ^ e;
             half = 2 ^ (e - 1);
             q' = (if half < r \<or> (r = half \<and> odd q) then q + 1 else q)
         in sgn n * (q' * 2 ^ e)))"

text \<open>
  \<open>ctx.storage\<close> is the persistent key-value store of one durable object; the class
  keeps one number under the key \<open>value\<close>. The private field \<open>value\<close> of the class is
  the record field \<open>this_value\<close> (the word \<open>value\<close> is reserved in Isabelle).
\<close>

type_synonym storage = "string \<rightharpoonup> int"

record Counter =
  this_value :: int
  ctx_storage :: storage

text \<open>
  \<open>new URL(request.url).pathname\<close> is the platform's URL parser, a parameter of the
  model: it throws on a string that is not a URL (\<open>Inl\<close>) and otherwise returns the
  path of the parsed URL.
\<close>

type_synonym URL_pathname = "string \<Rightarrow> error + string"

definition storage_get :: "Counter \<Rightarrow> string \<Rightarrow> int option" where
  "storage_get this k = ctx_storage this k"

definition storage_put :: "string \<Rightarrow> int \<Rightarrow> Counter \<Rightarrow> Counter" where
  "storage_put k v this = this\<lparr>ctx_storage := (ctx_storage this)(k \<mapsto> v)\<rparr>"

definition value_json :: "Counter \<Rightarrow> Response" where
  "value_json this = Response_json (JObj [(''value'', JNum (this_value this))]) 200"

text \<open>\<open>Counter.fetch\<close>: the request is given by its URL; the result is the exception
  thrown by \<open>new URL\<close>, or the response and the object after the request.\<close>

definition Counter_fetch ::
  "URL_pathname \<Rightarrow> string \<Rightarrow> Counter \<Rightarrow> error + Response \<times> Counter" where
  "Counter_fetch new_URL_pathname url this0 =
     (case new_URL_pathname url of
        Inl e \<Rightarrow> Inl e
      | Inr pathname \<Rightarrow>
          (let this1 = this0\<lparr>this_value :=
                         (case storage_get this0 ''value'' of Some v \<Rightarrow> v | None \<Rightarrow> 0)\<rparr>
           in if pathname = ''/increment'' then
                (let this2 = this1\<lparr>this_value := to_double (this_value this1 + 1)\<rparr>;
                     this3 = storage_put ''value'' (this_value this2) this2
                 in Inr (value_json this3, this3))
              else if pathname = ''/decrement'' then
                (let this2 = this1\<lparr>this_value := to_double (this_value this1 - 1)\<rparr>;
                     this3 = storage_put ''value'' (this_value this2) this2
                 in Inr (value_json this3, this3))
              else if pathname = ''/reset'' then
                (let this2 = this1\<lparr>this_value := 0\<rparr>;
                     this3 = storage_put ''value'' (this_value this2) this2
                 in Inr (value_json this3, this3))
              else Inr (value_json this1, this1)))"

text \<open>
  The namespace binding \<open>COUNTER\<close>: \<open>idFromName(name)\<close> followed by \<open>get(id)\<close>
  addresses the one object of that name, so the namespace is a function from names
  to objects. A route fetches a fixed URL from the stub and returns the response;
  an exception thrown by the object leaves the namespace as it was.
\<close>

type_synonym namespace = "string \<Rightarrow> Counter"

definition stub_fetch ::
  "URL_pathname \<Rightarrow> string \<Rightarrow> string \<Rightarrow> namespace \<Rightarrow> (error + Response) \<times> namespace" where
  "stub_fetch new_URL_pathname name url ns =
     (case Counter_fetch new_URL_pathname url (ns name) of
        Inl e \<Rightarrow> (Inl e, ns)
      | Inr (response, obj) \<Rightarrow> (Inr response, ns(name := obj)))"

definition get_counter ::
  "URL_pathname \<Rightarrow> string \<Rightarrow> namespace \<Rightarrow> (error + Response) \<times> namespace" where
  "get_counter new_URL_pathname name ns =
     stub_fetch new_URL_pathname name ''http://counter/'' ns"

definition post_counter_increment ::
  "URL_pathname \<Rightarrow> string \<Rightarrow> namespace \<Rightarrow> (error + Response) \<times> namespace" where
  "post_counter_increment new_URL_pathname name ns =
     stub_fetch new_URL_pathname name ''http://counter/increment'' ns"

definition post_counter_decrement ::
  "URL_pathname \<Rightarrow> string \<Rightarrow> namespace \<Rightarrow> (error + Response) \<times> namespace" where
  "post_counter_decrement new_URL_pathname name ns =
     stub_fetch new_URL_pathname name ''http://counter/decrement'' ns"

definition post_counter_reset ::
  "URL_pathname \<Rightarrow> string \<Rightarrow> namespace \<Rightarrow> (error + Response) \<times> namespace" where
  "post_counter_reset new_URL_pathname name ns =
     stub_fetch new_URL_pathname name ''http://counter/reset'' ns"

text \<open>The number a request starts from: the stored one, or 0 when nothing is stored.\<close>

definition loaded :: "Counter \<Rightarrow> int" where
  "loaded this = (case ctx_storage this ''value'' of Some v \<Rightarrow> v | None \<Rightarrow> 0)"

definition stored :: "namespace \<Rightarrow> string \<Rightarrow> int" where
  "stored ns name = loaded (ns name)"

definition value_response :: "int \<Rightarrow> Response" where
  "value_response v = Response_json (JObj [(''value'', JNum v)]) 200"

text \<open>
  For the examples: what \<open>new URL(u).pathname\<close> answers for the four URLs that the
  worker's routes build. The examples use no other URL.
\<close>

definition example_URL_pathname :: URL_pathname where
  "example_URL_pathname u =
     (if u = ''http://counter/'' then Inr ''/''
      else if u = ''http://counter/increment'' then Inr ''/increment''
      else if u = ''http://counter/decrement'' then Inr ''/decrement''
      else if u = ''http://counter/reset'' then Inr ''/reset''
      else Inl (Error ''URL outside the examples''))"

definition counter_at :: "int \<Rightarrow> namespace" where
  "counter_at v = (\<lambda>_. \<lparr>this_value = 0, ctx_storage = [''value'' \<mapsto> v]\<rparr>)"

section \<open>Read-by-key REST routes of the playground worker\<close>

text \<open>
  The bindings are platform objects. A lookup either throws (left summand) or returns
  the value or \<open>null\<close> (\<open>None\<close>). \<open>DB_first sql params\<close> stands for
  \<open>DB.prepare(sql).bind(params).first()\<close>, \<open>CACHE_get\<close> for \<open>CACHE.get\<close> and
  \<open>STORAGE_get\<close> for \<open>STORAGE.get\<close>. The \<open>cors\<close> middleware registered for
  \<open>/api/*\<close> only adds headers and is left out.
\<close>

record HttpMetadata =
  contentType :: "string option"

record R2ObjectBody =
  object_body :: string
  httpMetadata :: "HttpMetadata option"

record Env =
  DB_first :: "string \<Rightarrow> string list \<Rightarrow> error + (string \<times> json) list option"
  CACHE_get :: "string \<Rightarrow> error + string option"
  STORAGE_get :: "string \<Rightarrow> error + R2ObjectBody option"

text \<open>\<open>app.get('/api/users/:id', ...)\<close>\<close>

definition get_user :: "Env \<Rightarrow> string \<Rightarrow> error + Response" where
  "get_user env uid =
     (case DB_first env ''SELECT * FROM users WHERE id = ?'' [uid] of
        Inl e \<Rightarrow> Inl e
      | Inr user \<Rightarrow>
          (case user of
             None \<Rightarrow> Inr (Response_json (JObj [(''error'', JStr ''User not found'')]) 404)
           | Some row \<Rightarrow> Inr (Response_json (JObj row) 200)))"

text \<open>\<open>app.get('/api/kv/:key', ...)\<close>\<close>

definition get_kv :: "Env \<Rightarrow> string \<Rightarrow> error + Response" where
  "get_kv env key =
     (case CACHE_get env key of
        Inl e \<Rightarrow> Inl e
      | Inr value \<Rightarrow>
          (if value = None
           then Inr (Response_json (JObj [(''error'', JStr ''Key not found'')]) 404)
           else Inr (Response_json (JObj [(''key'', JStr key), (''value'', JStr (the value))]) 200)))"

text \<open>\<open>app.get('/api/files/:key', ...)\<close>: the body of the object is streamed back with
  its content type, \<open>application/octet-stream\<close> when none is recorded.\<close>

definition get_file :: "Env \<Rightarrow> string \<Rightarrow> error + Response" where
  "get_file env key =
     (case STORAGE_get env key of
        Inl e \<Rightarrow> Inl e
      | Inr object \<Rightarrow>
          (case object of
             None \<Rightarrow> Inr (Response_json (JObj [(''error'', JStr ''File not found'')]) 404)
           | Some obj \<Rightarrow>
               Inr \<lparr>status = 200,
                    headers = [(''Content-Type'',
                       (case (case httpMetadata obj of None \<Rightarrow> None | Some m \<Rightarrow> contentType m) of
                          Some ct \<Rightarrow> ct
                        | None \<Rightarrow> ''application/octet-stream''))],
                    body = Stream (object_body obj)\<rparr>))"

text \<open>A response is a 404 with an error body: status 404 and a JSON object with the
  single member \<open>error\<close>.\<close>

fun is_error_body :: "body \<Rightarrow> bool" where
  "is_error_body (Json (JObj [(k, JStr msg)])) = (k = ''error'')"
| "is_error_body _ = False"

definition is_404 :: "error + Response \<Rightarrow> bool" where
  "is_404 r = (case r of Inl e \<Rightarrow> False | Inr resp \<Rightarrow> status resp = 404 \<and> is_error_body (body resp))"

definition content_type_of :: "R2ObjectBody \<Rightarrow> string" where
  "content_type_of obj =
     (case httpMetadata obj of
        None \<Rightarrow> ''application/octet-stream''
      | Some m \<Rightarrow> (case contentType m of None \<Rightarrow> ''application/octet-stream'' | Some ct \<Rightarrow> ct))"

section \<open>LocalFlare.start: the options handed to the emulator\<close>

text \<open>
  The discovered bindings as \<open>start\<close> reads them (the declarations live in
  \<open>types.ts\<close>; only the fields that \<open>start\<close> touches are listed). Several binding
  kinds have a field called \<open>binding\<close>, so field names carry the kind as a prefix.
\<close>

record D1DatabaseConfig =
  d1_binding :: string
  database_id :: string

record KVNamespaceConfig =
  kv_binding :: string
  kv_id :: string

record R2BucketConfig =
  r2_binding :: string
  bucket_name :: string

record QueueProducerConfig =
  queue_binding :: string
  queue :: string

record DurableObjectConfig =
  do_name :: string
  class_name :: string

record QueuesConfig =
  producers :: "QueueProducerConfig list"

record DiscoveredBindings =
  d1 :: "D1DatabaseConfig list"
  kv :: "KVNamespaceConfig list"
  r2 :: "R2BucketConfig list"
  queues :: QueuesConfig
  durableObjects :: "DurableObjectConfig list"
  vars :: "(string \<times> string) list"

record WranglerConfig =
  main :: "string option"

record LocalFlareOptions =
  configPath :: string
  port :: nat
  dashboardPort :: nat
  persistPath :: string
  verbose :: bool

text \<open>
  A JavaScript object with string keys is given by its own properties, an association
  list in the order of their creation; assigning to a key that is present replaces
  its value in place. \<open>Object.fromEntries\<close> defines the entries as own properties
  from left to right. \<open>Object.keys\<close> lists the own keys: first those that are array
  indices (the decimal numerals of the integers from 0 to \<open>2 ^ 32 - 2\<close>, without
  leading zeros) in ascending numeric order, then the others in the order of their
  creation.
\<close>

type_synonym 'v object = "(string \<times> 'v) list"

definition Object_fromEntries :: "(string \<times> 'v) list \<Rightarrow> 'v object" where
  "Object_fromEntries entries = foldl (\<lambda>obj (k, v). AList.update k v obj) [] entries"

definition decimal :: "string \<Rightarrow> nat" where
  "decimal s = foldl (\<lambda>n c. 10 * n + (of_char c - 48)) 0 s"

definition is_array_index :: "string \<Rightarrow> bool" where
  "is_array_index s \<longleftrightarrow>
     s \<noteq> [] \<and> list_all (\<lambda>c. c \<in> set ''0123456789'') s
     \<and> (s = ''0'' \<or> hd s \<noteq> CHR ''0'') \<and> decimal s < 2 ^ 32 - 1"

definition Object_keys :: "'v object \<Rightarrow> string list" where
  "Object_keys obj =
     (let ks = map fst obj
      in sort_key decimal (filter is_array_index ks) @ filter (\<lambda>k. \<not> is_array_index k) ks)"

text \<open>
  The options object built for the emulator. Its optional entries are options; its
  fields \<open>port\<close>, \<open>verbose\<close> and \<open>durableObjects\<close> carry the prefix \<open>mf_\<close>, and
  the fields \<open>type\<close> and \<open>path\<close> of a module the prefix \<open>module_\<close>, to keep them
  apart from the fields of the same name elsewhere.
\<close>

record Module =
  module_type :: string
  module_path :: string
  contents :: string

record MiniflareOptions =
  modules :: "Module list"
  mf_port :: nat
  mf_verbose :: bool
  kvPersist :: string
  d1Persist :: string
  r2Persist :: string
  durableObjectsPersist :: string
  cachePersist :: string
  bindings :: "string object"
  d1Databases :: "string object option"
  kvNamespaces :: "string object option"
  r2Buckets :: "string object option"
  queueProducers :: "string object option"
  mf_durableObjects :: "string object option"

text \<open>
  What \<open>start\<close> obtains from outside the class: path resolution, the parsed
  configuration and its bindings (\<open>config.ts\<close>), the text of the first output file of
  the bundler (if any), and the emulator, which is constructed from the options and
  answers with the URL it listens on.
\<close>

record Outside =
  resolve :: "string list \<Rightarrow> string"
  dirname :: "string \<Rightarrow> string"
  parseWranglerConfig :: "string \<Rightarrow> error + WranglerConfig"
  discoverBindings :: "WranglerConfig \<Rightarrow> DiscoveredBindings"
  esbuild_build :: "string \<Rightarrow> error + string option"
  miniflare_ready :: "MiniflareOptions \<Rightarrow> error + string"

text \<open>
  \<open>LocalFlare.start\<close>. The result is the exception thrown, or the options object that
  was passed to \<open>new Miniflare\<close> together with the URL of the running worker. Console
  output is not modelled.
\<close>

definition start :: "Outside \<Rightarrow> LocalFlareOptions \<Rightarrow> error + MiniflareOptions \<times> string" where
  "start out options =
     (let configPath' = resolve out [configPath options];
          rootDir = dirname out configPath'
      in case parseWranglerConfig out configPath' of
           Inl e \<Rightarrow> Inl e
         | Inr config \<Rightarrow>
     (let bindings' = discoverBindings out config;
          persistRoot = resolve out [rootDir, persistPath options];
          entryPoint = resolve out [rootDir,
             (case main config of None \<Rightarrow> ''src/index.ts''
              | Some m \<Rightarrow> if m = [] then ''src/index.ts'' else m)]
      in case esbuild_build out entryPoint of
           Inl e \<Rightarrow> Inl e
         | Inr text \<Rightarrow>
     (if text = None \<or> text = Some [] then Inl (Error ''Failed to compile worker script'')
      else
     (let scriptContent = the text;
          d1Databases' = Object_fromEntries (map (\<lambda>d. (d1_binding d, database_id d)) (d1 bindings'));
          kvNamespaces' = Object_fromEntries (map (\<lambda>k. (kv_binding k, kv_id k)) (kv bindings'));
          r2Buckets' = Object_fromEntries (map (\<lambda>r. (r2_binding r, bucket_name r)) (r2 bindings'));
          queueProducers' = Object_fromEntries
             (map (\<lambda>q. (queue_binding q, queue q)) (producers (queues bindings')));
          durableObjects' = Object_fromEntries
             (map (\<lambda>d. (do_name d, class_name d)) (durableObjects bindings'));
          miniflareOptions =
            \<lparr>modules = [\<lparr>module_type = ''ESModule'', module_path = entryPoint,
                          contents = scriptContent\<rparr>],
             mf_port = port options,
             mf_verbose = verbose options,
             kvPersist = persistRoot @ ''/kv'',
             d1Persist = persistRoot @ ''/d1'',
             r2Persist = persistRoot @ ''/r2'',
             durableObjectsPersist = persistRoot @ ''/do'',
             cachePersist = persistRoot @ ''/cache'',
             bindings = vars bindings',
             d1Databases = None, kvNamespaces = None, r2Buckets = None,
             queueProducers = None, mf_durableObjects = None\<rparr>;
          miniflareOptions =
            (if length (Object_keys d1Databases') > 0
             then miniflareOptions\<lparr>d1Databases := Some d1Databases'\<rparr> else miniflareOptions);
          miniflareOptions =
            (if length (Object_keys kvNamespaces') > 0
             then miniflareOptions\<lparr>kvNamespaces := Some kvNamespaces'\<rparr> else miniflareOptions);
          miniflareOptions =
            (if length (Object_keys r2Buckets') > 0
             then miniflareOptions\<lparr>r2Buckets := Some r2Buckets'\<rparr> else miniflareOptions);
          miniflareOptions =
            (if length (Object_keys queueProducers') > 0
             then miniflareOptions\<lparr>queueProducers := Some queueProducers'\<rparr> else miniflareOptions);
          miniflareOptions =
            (if length (Object_keys durableObjects') > 0
             then miniflareOptions\<lparr>mf_durableObjects := Some durableObjects'\<rparr> else miniflareOptions)
      in case miniflare_ready out miniflareOptions of
           Inl e \<Rightarrow> Inl e
         | Inr url \<Rightarrow> Inr (miniflareOptions, url)))))"

text \<open>The bindings a successful \<open>start\<close> worked from.\<close>

definition discovered :: "Outside \<Rightarrow> LocalFlareOptions \<Rightarrow> DiscoveredBindings option" where
  "discovered out options =
     (case parseWranglerConfig out (resolve out [configPath options]) of
        Inl e \<Rightarrow> None
      | Inr config \<Rightarrow> Some (discoverBindings out config))"

text \<open>Reading a property of an object: the value of the key, if present.\<close>

definition Object_get :: "'v object \<Rightarrow> string \<Rightarrow> 'v option" where
  "Object_get obj k = map_of obj k"

text \<open>
  An entry of the options maps the names of a binding list to their configured
  values: it has exactly the names of the list as keys, each name is mapped to the
  value configured by a binding of that name, and to the value of every binding whose
  name occurs only once in the list.
\<close>

definition maps_names :: "string object \<Rightarrow> (string \<times> string) list \<Rightarrow> bool" where
  "maps_names obj entries \<longleftrightarrow>
     set (Object_keys obj) = set (map fst entries)
     \<and> distinct (Object_keys obj)
     \<and> (\<forall>(k, v) \<in> set entries. \<exists>(k', v') \<in> set entries. k' = k \<and> Object_get obj k = Some v')
     \<and> (\<forall>(k, v) \<in> set entries.
          length (filter (\<lambda>e. fst e = k) entries) = 1 \<longrightarrow> Object_get obj k = Some v)"

definition entry_ok ::
  "string object option \<Rightarrow> ('b \<Rightarrow> string) \<Rightarrow> ('b \<Rightarrow> string) \<Rightarrow> 'b list \<Rightarrow> bool" where
  "entry_ok entry name_of value_of bs \<longleftrightarrow>
     (entry \<noteq> None \<longleftrightarrow> bs \<noteq> [])
     \<and> (case entry of None \<Rightarrow> True
         | Some obj \<Rightarrow> maps_names obj (map (\<lambda>b. (name_of b, value_of b)) bs))"

text \<open>A project with one D1 database, two KV namespaces and one durable object class,
  whose worker compiles and whose emulator comes up.\<close>

definition example_outside :: Outside where
  "example_outside =
     \<lparr>resolve = (\<lambda>ps. if ps = [''./wrangler.toml''] then ''/app/wrangler.toml''
                       else ''/app/'' @ last ps),
      dirname = (\<lambda>p. ''/app''),
      parseWranglerConfig = (\<lambda>p. Inr \<lparr>main = None\<rparr>),
      discoverBindings = (\<lambda>c.
         \<lparr>d1 = [\<lparr>d1_binding = ''DB'', database_id = ''db-1''\<rparr>],
          kv = [\<lparr>kv_binding = ''CACHE'', kv_id = ''kv-1''\<rparr>,
                \<lparr>kv_binding = ''SESSIONS'', kv_id = ''kv-2''\<rparr>],
          r2 = [],
          queues = \<lparr>producers = []\<rparr>,
          durableObjects = [\<lparr>do_name = ''COUNTER'', class_name = ''Counter''\<rparr>],
          vars = [(''ENVIRONMENT'', ''dev'')]\<rparr>),
      esbuild_build = (\<lambda>entry. Inr (Some ''export default {}'')),
      miniflare_ready = (\<lambda>opts. Inr ''http://localhost:8787'')\<rparr>"

definition example_options :: LocalFlareOptions where
  "example_options =
     \<lparr>configPath = ''./wrangler.toml'', port = 8787, dashboardPort = 8788,
      persistPath = ''.localflare'', verbose = False\<rparr>"

section \<open>The dummy-data generator of the D1 browser\<close>

subsection \<open>Column-name patterns\<close>

text \<open>
  The regular expressions of the generator use literals, alternation, an optional
  group and \<open>.*\<close>; all of them are anchored at both ends. \<open>matches r s\<close> lists what can
  remain of \<open>s\<close> after \<open>r\<close> has matched a prefix of it; \<open>.\<close> matches any character
  except a line terminator. The flag \<open>i\<close> compares without regard to case: the
  patterns are written in lower case, so the subject is lowered.
\<close>

datatype regex =
    Lit string
  | Cat regex regex
  | Alt regex regex
  | Opt regex
  | DotStar

fun matches :: "regex \<Rightarrow> string \<Rightarrow> string list" where
  "matches (Lit w) s = (if startsWith s w then [drop (length w) s] else [])"
| "matches (Cat a b) s = concat (map (matches b) (matches a s))"
| "matches (Alt a b) s = matches a s @ matches b s"
| "matches (Opt a) s = matches a s @ [s]"
| "matches DotStar s =
     map (\<lambda>k. drop k s)
       (rev [0 ..< Suc (length (takeWhile (\<lambda>c. c \<noteq> CHR 0x0A \<and> c \<noteq> CHR 0x0D) s))])"

definition test :: "regex \<Rightarrow> string \<Rightarrow> bool" where
  "test r s = ([] \<in> set (matches r (toLowerCase s)))"

text \<open>An alternation of literals, \<open>(a|b|c)\<close>.\<close>

fun words :: "string list \<Rightarrow> regex" where
  "words [] = Lit []"
| "words [w] = Lit w"
| "words (w # ws) = Alt (Lit w) (words ws)"

definition DATE_TIME_PATTERNS :: "regex list" where
  "DATE_TIME_PATTERNS =
     [Cat (Alt (words [''created'', ''updated'', ''deleted'', ''modified'', ''published''])
               (Cat (Lit ''expire'') (Opt (Lit ''s''))))
          (Cat (Opt (Lit ''_'')) (Lit ''at'')),
      Cat (words [''created'', ''updated'', ''deleted'', ''modified'', ''published''])
          (Cat (Opt (Lit ''_'')) (words [''date'', ''time'', ''on''])),
      Cat (words [''start'', ''end'', ''begin'', ''finish'', ''due'', ''birth'', ''event''])
          (Cat (Opt (Lit ''_'')) (Opt (words [''date'', ''time'', ''at'']))),
      Cat (Lit ''date'')
          (Cat (Opt (Lit ''_'')) (Opt (words [''of'', ''created'', ''updated'', ''time'']))),
      Lit ''timestamp'',
      Cat DotStar (Lit ''_timestamp'')]"

definition DATE_ONLY_PATTERNS :: "regex list" where
  "DATE_ONLY_PATTERNS =
     [Cat (words [''birth'', ''event'', ''start'', ''end'', ''due''])
          (Cat (Opt (Lit ''_'')) (Lit ''date'')),
      Lit ''date'',
      Cat DotStar (Lit ''_date'')]"

definition TIME_ONLY_PATTERNS :: "regex list" where
  "TIME_ONLY_PATTERNS =
     [Cat (words [''start'', ''end'']) (Cat (Opt (Lit ''_'')) (Lit ''time'')),
      Lit ''time'']"

datatype DateTimeKind = datetime | date | time

definition matchesDateTimePattern :: "string \<Rightarrow> DateTimeKind option" where
  "matchesDateTimePattern name =
     (let lowerName = toLowerCase name
      in if list_ex (\<lambda>pattern. test pattern lowerName) TIME_ONLY_PATTERNS then Some time
         else if list_ex (\<lambda>pattern. test pattern lowerName) DATE_ONLY_PATTERNS then Some date
         else if list_ex (\<lambda>pattern. test pattern lowerName) DATE_TIME_PATTERNS then Some datetime
         else None)"

subsection \<open>Columns, cell values and the random sources\<close>

text \<open>
  A column as the generator reads it: its \<open>name\<close>, \<open>type\<close> and \<open>pk\<close> (the
  declaration in \<open>types.ts\<close> has further fields, which the generator does not read). A cell value is a string, a number or
  \<open>null\<close>; \<open>undefined\<close> is \<open>None\<close>.
\<close>

record D1Column =
  col_name :: string
  col_type :: string
  pk :: int

record D1TableSchema =
  columns :: "D1Column list"

datatype D1CellValue = Null | Text string | Number real

text \<open>
  Faker is a library, not code of the repository. A \<open>Faker\<close> value holds what each of
  its generators returns when the generator is called in one invocation of
  \<open>generateValueForColumn\<close> (which calls at most one of them, once). A date is given
  by its two renderings.
\<close>

record JSDate =
  toISOString :: string
  toTimeString :: string

record Faker =
  date_past :: JSDate
  number_int :: "int \<Rightarrow> int \<Rightarrow> int"
  number_float :: "real \<Rightarrow> real \<Rightarrow> nat \<Rightarrow> real"
  datatype_boolean :: bool
  lorem_words :: "nat \<Rightarrow> nat \<Rightarrow> string"

text \<open>The documented range of the numeric generators: between \<open>min\<close> and \<open>max\<close>.\<close>

definition faker_in_range :: "Faker \<Rightarrow> bool" where
  "faker_in_range faker \<longleftrightarrow>
     (\<forall>lo hi. lo \<le> hi \<longrightarrow> lo \<le> number_int faker lo hi \<and> number_int faker lo hi \<le> hi)
     \<and> (\<forall>lo hi d. lo \<le> hi \<longrightarrow> lo \<le> number_float faker lo hi d \<and> number_float faker lo hi d \<le> hi)"

subsection \<open>generateValueForColumn\<close>

definition generateValueForColumn :: "Faker \<Rightarrow> D1Column \<Rightarrow> D1CellValue option" where
  "generateValueForColumn faker column =
     (if pk column = 1 \<and> toUpperCase (col_type column) = ''INTEGER'' then None
      else
        let type = toUpperCase (col_type column)
        in if str_includes type ''DATETIME'' \<or> str_includes type ''TIMESTAMP''
           then Some (Text (toISOString (date_past faker)))
           else if type = ''DATE''
           then Some (Text (hd (split (toISOString (date_past faker)) CHR ''T'')))
           else if type = ''TIME''
           then Some (Text (hd (split (toTimeString (date_past faker)) CHR '' '')))
           else if str_includes type ''INT''
           then Some (Number (of_int (number_int faker 1 1000)))
           else if str_includes type ''REAL'' \<or> str_includes type ''FLOAT'' \<or> str_includes type ''DOUBLE''
           then Some (Number (number_float faker 0 100 2))
           else if str_includes type ''BOOL''
           then Some (Number (if datatype_boolean faker then 1 else 0))
           else if str_includes type ''NUMERIC'' \<or> str_includes type ''DECIMAL''
           then Some (Number (number_float faker 0 1000 2))
           else if str_includes type ''BLOB''
           then Some Null
           else
             let dateTimeMatch = matchesDateTimePattern (col_name column)
             in if dateTimeMatch = Some datetime
                then Some (Text (toISOString (date_past faker)))
                else if dateTimeMatch = Some date
                then Some (Text (hd (split (toISOString (date_past faker)) CHR ''T'')))
                else if dateTimeMatch = Some time
                then Some (Text (hd (split (toTimeString (date_past faker)) CHR '' '')))
                else Some (Text (lorem_words faker 2 5)))"

subsection \<open>generateDummyRow\<close>

text \<open>
  The two objects of \<open>generateDummyRow\<close> are plain JavaScript objects, whose
  prototype is \<open>Object.prototype\<close>: a property that is not an own property is looked
  up there. \<open>Object.prototype\<close> has the methods below, each a function with the given
  \<open>length\<close>, and the accessor \<open>__proto__\<close>, whose getter returns the prototype and
  whose setter replaces the prototype when it is given an object or \<open>null\<close> and does
  nothing for any other value.
\<close>

definition Object_prototype_methods :: "(string \<times> nat) list" where
  "Object_prototype_methods =
     [(''constructor'', 1), (''__defineGetter__'', 2), (''__defineSetter__'', 2),
      (''hasOwnProperty'', 1), (''__lookupGetter__'', 1), (''__lookupSetter__'', 1),
      (''isPrototypeOf'', 1), (''propertyIsEnumerable'', 1), (''toString'', 0),
      (''valueOf'', 0), (''toLocaleString'', 0)]"

text \<open>
  \<open>foreignKeyValues\<close> is a plain object given by its own properties, each a list of
  cell values. \<open>foreignKeyValues[name]\<close> is the list of the own property \<open>name\<close>, or
  else the method of that name, or the prototype for \<open>__proto__\<close>, or \<open>undefined\<close>.
  \<open>property_length\<close> is \<open>?.length\<close> of such a value (\<open>None\<close> for \<open>undefined\<close>) and
  \<open>property_at\<close> is indexing it with a number; \<open>values[index]\<close> is \<open>undefined\<close>
  outside a list, and a function has no element at all.
\<close>

type_synonym ForeignKeyValues = "D1CellValue list object"

datatype property = Undefined | Values "D1CellValue list" | Method nat | Prototype

definition foreignKeyValues_get :: "ForeignKeyValues \<Rightarrow> string \<Rightarrow> property" where
  "foreignKeyValues_get fkv k =
     (case Object_get fkv k of
        Some vs \<Rightarrow> Values vs
      | None \<Rightarrow>
          (case map_of Object_prototype_methods k of
             Some n \<Rightarrow> Method n
           | None \<Rightarrow> if k = ''__proto__'' then Prototype else Undefined))"

fun property_length :: "property \<Rightarrow> nat option" where
  "property_length (Values vs) = Some (length vs)"
| "property_length (Method n) = Some n"
| "property_length Prototype = None"
| "property_length Undefined = None"

definition index :: "'a list \<Rightarrow> int \<Rightarrow> 'a option" where
  "index xs i = (if 0 \<le> i \<and> i < int (length xs) then Some (xs ! nat i) else None)"

fun property_at :: "property \<Rightarrow> int \<Rightarrow> D1CellValue option" where
  "property_at (Values vs) i = index vs i"
| "property_at (Method n) i = None"
| "property_at Prototype i = None"
| "property_at Undefined i = None"

text \<open>
  The row starts as \<open>{}\<close>. It is given by its own properties (a value of \<open>None\<close> is
  the value \<open>undefined\<close>) and by whether its prototype is still \<open>Object.prototype\<close>.
  The assignment \<open>row[k] = v\<close> sets the own property \<open>k\<close> when there is one; else,
  for \<open>k = __proto__\<close> on a row that still has its prototype, it calls the setter of
  the accessor, which creates no own property and, as the values are strings, numbers,
  \<open>null\<close> or \<open>undefined\<close>, removes the prototype for \<open>null\<close> and does nothing
  otherwise; in every other case it creates the own property \<open>k\<close>.
\<close>

record Row =
  own_properties :: "D1CellValue option object"
  has_prototype :: bool

definition Row_empty :: Row where
  "Row_empty = \<lparr>own_properties = [], has_prototype = True\<rparr>"

definition Row_own :: "Row \<Rightarrow> string \<Rightarrow> D1CellValue option option" where
  "Row_own row k = Object_get (own_properties row) k"

definition Row_set :: "string \<Rightarrow> D1CellValue option \<Rightarrow> Row \<Rightarrow> Row" where
  "Row_set k v row =
     (if Row_own row k = None \<and> k = ''__proto__'' \<and> has_prototype row
      then (if v = Some Null then row\<lparr>has_prototype := False\<rparr> else row)
      else row\<lparr>own_properties := AList.update k v (own_properties row)\<rparr>)"

text \<open>
  Each turn of the loop over the columns has its own random draws: \<open>random_index n\<close>
  is the value of \<open>Math.floor(Math.random() * n)\<close> in that turn, computed by the host
  in double arithmetic, and \<open>faker_results\<close> are the Faker results. \<open>chance i\<close> holds
  those of turn \<open>i\<close>.
\<close>

record Chance =
  random_index :: "nat \<Rightarrow> int"
  faker_results :: Faker

fun generateDummyRow_loop ::
  "(nat \<Rightarrow> Chance) \<Rightarrow> ForeignKeyValues option \<Rightarrow> nat \<Rightarrow> D1Column list \<Rightarrow> Row \<Rightarrow> Row" where
  "generateDummyRow_loop chance foreignKeyValues i [] row = row"
| "generateDummyRow_loop chance foreignKeyValues i (col # cols) row =
     (if (case foreignKeyValues of
            None \<Rightarrow> False
          | Some fkv \<Rightarrow> (case property_length (foreignKeyValues_get fkv (col_name col)) of
                          None \<Rightarrow> False
                        | Some n \<Rightarrow> n > 0))
      then
        let fkValues = foreignKeyValues_get (the foreignKeyValues) (col_name col);
            picked = property_at fkValues
                       (random_index (chance i) (the (property_length fkValues)))
        in generateDummyRow_loop chance foreignKeyValues (i + 1) cols
             (Row_set (col_name col) picked row)
      else
        let value = generateValueForColumn (faker_results (chance i)) col
        in if value \<noteq> None
           then generateDummyRow_loop chance foreignKeyValues (i + 1) cols
                  (Row_set (col_name col) value row)
           else generateDummyRow_loop chance foreignKeyValues (i + 1) cols row)"

definition generateDummyRow ::
  "(nat \<Rightarrow> Chance) \<Rightarrow> D1TableSchema \<Rightarrow> ForeignKeyValues option \<Rightarrow> Row" where
  "generateDummyRow chance schema foreignKeyValues =
     generateDummyRow_loop chance foreignKeyValues 0 (columns schema) Row_empty"

text \<open>Sample random draws, for running the generator.\<close>

definition example_faker :: Faker where
  "example_faker =
     \<lparr>date_past = \<lparr>toISOString = ''2024-03-09T16:20:05.000Z'',
                    toTimeString = ''16:20:05 GMT+0000 (Coordinated Universal Time)''\<rparr>,
      number_int = (\<lambda>lo hi. if lo \<le> 42 \<and> 42 \<le> hi then 42 else lo),
      number_float = (\<lambda>lo hi d. if lo \<le> 12.5 \<and> 12.5 \<le> hi then 12.5 else lo),
      datatype_boolean = True,
      lorem_words = (\<lambda>lo hi. ''lorem ipsum dolor'')\<rparr>"

definition example_chance :: "nat \<Rightarrow> Chance" where
  "example_chance i = \<lparr>random_index = (\<lambda>n. int (n div 2)), faker_results = example_faker\<rparr>"





section \<open>The file tree of the R2 browser\<close>

text \<open>
  \<open>TreeNode\<close> and \<open>R2ObjectItem\<close> as declared in \<open>FileTree.tsx\<close> (the dashboard and
  the demo app declare them alike). The optional fields \<open>size\<close> and \<open>children\<close> are
  options; \<open>size\<close> is called \<open>size_opt\<close> in a node and \<open>size_bytes\<close> in an object,
  since \<open>size\<close> is a constant of HOL. Objects listed by the API carry further fields,
  such as \<open>uploaded\<close>; the record type is extensible to allow for them.
\<close>

datatype NodeType = File | Folder

datatype TreeNode =
  TreeNode (name: string) (path: string) (type: NodeType) (size_opt: "int option")
    (children: "TreeNode list option")

record R2ObjectItem =
  key :: string
  size_bytes :: int

record R2ObjectListed = R2ObjectItem +
  uploaded :: string

text \<open>
  The builder keeps a reference \<open>currentLevel\<close> to the array it is working in and
  pushes new nodes onto it. A node belongs to exactly one array, so the effect of
  descending into \<open>existing.children\<close> and continuing there is that the children of
  the first node of that name are replaced by the result of continuing on them.
\<close>

definition with_children :: "TreeNode \<Rightarrow> TreeNode list \<Rightarrow> TreeNode" where
  "with_children node ch = TreeNode (name node) (path node) (type node) (size_opt node) (Some ch)"

fun set_children :: "string \<Rightarrow> TreeNode list \<Rightarrow> TreeNode list \<Rightarrow> TreeNode list" where
  "set_children part ch [] = []"
| "set_children part ch (node # nodes) =
     (if name node = part then with_children node ch # nodes
      else node # set_children part ch nodes)"

text \<open>
  The inner loop of the first pass, for one object. \<open>pre\<close> holds the parts before
  index \<open>i\<close> and the list being recursed on the parts from \<open>i\<close> on, so that
  \<open>i === parts.length - 1\<close> reads \<open>rest = []\<close> and \<open>parts.slice(0, i + 1)\<close> is
  \<open>pre @ [part]\<close>.
\<close>

fun insert_object :: "int \<Rightarrow> string list \<Rightarrow> string list \<Rightarrow> TreeNode list \<Rightarrow> TreeNode list" where
  "insert_object sz pre [] currentLevel = currentLevel"
| "insert_object sz pre (part # rest) currentLevel =
     (if part = [] then insert_object sz (pre @ [part]) rest currentLevel
      else
        let isFile = (rest = []);
            currentPath = join (pre @ [part]) ''/''
        in case find (\<lambda>node. name node = part) currentLevel of
             None \<Rightarrow>
               currentLevel @
                 [TreeNode part currentPath (if isFile then File else Folder)
                    (if isFile then Some sz else None)
                    (if isFile then None
                     else Some (insert_object sz (pre @ [part]) rest []))]
           | Some existing \<Rightarrow>
               (if \<not> isFile \<and> children existing \<noteq> None
                then set_children part
                       (insert_object sz (pre @ [part]) rest (the (children existing)))
                       currentLevel
                else insert_object sz (pre @ [part]) rest currentLevel))"

text \<open>The inner loop of the second pass, for the folder path of one \<open>.keep\<close> marker.\<close>

fun insert_folder :: "string list \<Rightarrow> string list \<Rightarrow> TreeNode list \<Rightarrow> TreeNode list" where
  "insert_folder pre [] currentLevel = currentLevel"
| "insert_folder pre (part # rest) currentLevel =
     (if part = [] then insert_folder (pre @ [part]) rest currentLevel
      else
        let currentPath = join (pre @ [part]) ''/''
        in case find (\<lambda>node. name node = part) currentLevel of
             None \<Rightarrow>
               currentLevel @
                 [TreeNode part currentPath Folder None
                    (Some (insert_folder (pre @ [part]) rest []))]
           | Some existing \<Rightarrow>
               (if children existing \<noteq> None
                then set_children part
                       (insert_folder (pre @ [part]) rest (the (children existing)))
                       currentLevel
                else insert_folder (pre @ [part]) rest currentLevel))"

text \<open>
  The comparison function of \<open>sortNodes\<close>. \<open>String.prototype.localeCompare\<close> is the
  collation of the host; it is a parameter of the model.
\<close>

definition compareNodes :: "(string \<Rightarrow> string \<Rightarrow> int) \<Rightarrow> TreeNode \<Rightarrow> TreeNode \<Rightarrow> int" where
  "compareNodes localeCompare a b =
     (if type a \<noteq> type b then (if type a = Folder then - 1 else 1)
      else localeCompare (name a) (name b))"

text \<open>
  \<open>Array.prototype.sort\<close> is stable. For a comparison function that is a total
  preorder its result is the stable sorted arrangement, which insertion from the right
  computes.
\<close>

fun insert_sorted :: "('a \<Rightarrow> 'a \<Rightarrow> int) \<Rightarrow> 'a \<Rightarrow> 'a list \<Rightarrow> 'a list" where
  "insert_sorted compareFn x [] = [x]"
| "insert_sorted compareFn x (y # ys) =
     (if compareFn x y \<le> 0 then x # y # ys else y # insert_sorted compareFn x ys)"

definition Array_sort :: "('a \<Rightarrow> 'a \<Rightarrow> int) \<Rightarrow> 'a list \<Rightarrow> 'a list" where
  "Array_sort compareFn xs = foldr (insert_sorted compareFn) xs []"

lemma set_insert_sorted: "set (insert_sorted c x ys) = insert x (set ys)"
  by (induction ys) auto

lemma set_Array_sort: "set (Array_sort c xs) = set xs"
  by (induction xs) (simp_all add: Array_sort_def set_insert_sorted)

lemma children_size [termination_simp]:
  "children node = Some ch \<Longrightarrow> size_list size ch < size node"
  by (cases node) simp

function sortNodes :: "(string \<Rightarrow> string \<Rightarrow> int) \<Rightarrow> TreeNode list \<Rightarrow> TreeNode list" where
  "sortNodes localeCompare nodes =
     map (\<lambda>node. case children node of
                   Some ch \<Rightarrow> with_children node (sortNodes localeCompare ch)
                 | None \<Rightarrow> node)
       (Array_sort (compareNodes localeCompare) nodes)"
  by pat_completeness auto
termination
proof (relation "measure (\<lambda>(c, nodes). size_list size nodes)")
  show "wf (measure (\<lambda>(c, nodes). size_list size nodes))"
    by simp
next
  fix localeCompare :: "string \<Rightarrow> string \<Rightarrow> int" and nodes node ch
  assume "node \<in> set (Array_sort (compareNodes localeCompare) nodes)" "children node = Some ch"
  then have "node \<in> set nodes" "size_list size ch < size node"
    by (simp_all add: set_Array_sort children_size)
  then have "size_list size ch < size_list size nodes"
    using size_list_estimation [of node nodes "size_list size ch" size] by simp
  then show "((localeCompare, ch), (localeCompare, nodes)) \<in> measure (\<lambda>(c, nodes). size_list size nodes)"
    by simp
qed

declare sortNodes.simps [simp del]

definition buildFileTree ::
  "(string \<Rightarrow> string \<Rightarrow> int) \<Rightarrow> 'a R2ObjectItem_scheme list \<Rightarrow> bool \<Rightarrow> TreeNode list" where
  "buildFileTree localeCompare objects hideKeepFiles =
     (let root = [];
          filteredObjects =
            (if hideKeepFiles
             then filter (\<lambda>obj. \<not> endsWith (key obj) ''/.keep'' \<and> key obj \<noteq> ''.keep'') objects
             else objects);
          root = foldl (\<lambda>root obj. insert_object (size_bytes obj) [] (split (key obj) CHR ''/'') root)
                   root filteredObjects;
          root = (if hideKeepFiles
                  then foldl (\<lambda>root obj.
                          if endsWith (key obj) ''/.keep''
                          then insert_folder [] (split (replace_first (key obj) ''/.keep'') CHR ''/'') root
                          else root)
                        root objects
                  else root)
      in sortNodes localeCompare root)"

section \<open>The file tree of the demo app\<close>

fun demo_insert_object :: "int \<Rightarrow> string list \<Rightarrow> string list \<Rightarrow> TreeNode list \<Rightarrow> TreeNode list" where
  "demo_insert_object sz pre [] currentLevel = currentLevel"
| "demo_insert_object sz pre (part # rest) currentLevel =
     (if part = [] then demo_insert_object sz (pre @ [part]) rest currentLevel
      else
        let isFile = (rest = []);
            currentPath = join (pre @ [part]) ''/''
        in case find (\<lambda>node. name node = part) currentLevel of
             None \<Rightarrow>
               currentLevel @
                 [TreeNode part currentPath (if isFile then File else Folder)
                    (if isFile then Some sz else None)
                    (if isFile then None
                     else Some (demo_insert_object sz (pre @ [part]) rest []))]
           | Some existing \<Rightarrow>
               (if \<not> isFile \<and> children existing \<noteq> None
                then set_children part
                       (demo_insert_object sz (pre @ [part]) rest (the (children existing)))
                       currentLevel
                else demo_insert_object sz (pre @ [part]) rest currentLevel))"

fun demo_insert_folder :: "string list \<Rightarrow> string list \<Rightarrow> TreeNode list \<Rightarrow> TreeNode list" where
  "demo_insert_folder pre [] currentLevel = currentLevel"
| "demo_insert_folder pre (part # rest) currentLevel =
     (if part = [] then demo_insert_folder (pre @ [part]) rest currentLevel
      else
        let currentPath = join (pre @ [part]) ''/''
        in case find (\<lambda>node. name node = part) currentLevel of
             None \<Rightarrow>
               currentLevel @
                 [TreeNode part currentPath Folder None
                    (Some (demo_insert_folder (pre @ [part]) rest []))]
           | Some existing \<Rightarrow>
               (if children existing \<noteq> None
                then set_children part
                       (demo_insert_folder (pre @ [part]) rest (the (children existing)))
                       currentLevel
                else demo_insert_folder (pre @ [part]) rest currentLevel))"

definition demo_compareNodes :: "(string \<Rightarrow> string \<Rightarrow> int) \<Rightarrow> TreeNode \<Rightarrow> TreeNode \<Rightarrow> int" where
  "demo_compareNodes localeCompare a b =
     (if type a \<noteq> type b then (if type a = Folder then - 1 else 1)
      else localeCompare (name a) (name b))"

function demo_sortNodes :: "(string \<Rightarrow> string \<Rightarrow> int) \<Rightarrow> TreeNode list \<Rightarrow> TreeNode list" where
  "demo_sortNodes localeCompare nodes =
     map (\<lambda>node. case children node of
                   Some ch \<Rightarrow> with_children node (demo_sortNodes localeCompare ch)
                 | None \<Rightarrow> node)
       (Array_sort (demo_compareNodes localeCompare) nodes)"
  by pat_completeness auto
termination
proof (relation "measure (\<lambda>(c, nodes). size_list size nodes)")
  show "wf (measure (\<lambda>(c, nodes). size_list size nodes))"
    by simp
next
  fix localeCompare :: "string \<Rightarrow> string \<Rightarrow> int" and nodes node ch
  assume "node \<in> set (Array_sort (demo_compareNodes localeCompare) nodes)" "children node = Some ch"
  then have "node \<in> set nodes" "size_list size ch < size node"
    by (simp_all add: set_Array_sort children_size)
  then have "size_list size ch < size_list size nodes"
    using size_list_estimation [of node nodes "size_list size ch" size] by simp
  then show "((localeCompare, ch), (localeCompare, nodes)) \<in> measure (\<lambda>(c, nodes). size_list size nodes)"
    by simp
qed

declare demo_sortNodes.simps [simp del]

definition demo_buildFileTree ::
  "(string \<Rightarrow> string \<Rightarrow> int) \<Rightarrow> 'a R2ObjectItem_scheme list \<Rightarrow> bool \<Rightarrow> TreeNode list" where
  "demo_buildFileTree localeCompare objects hideKeepFiles =
     (let root = [];
          filteredObjects =
            (if hideKeepFiles
             then filter (\<lambda>obj. \<not> endsWith (key obj) ''/.keep'' \<and> key obj \<noteq> ''.keep'') objects
             else objects);
          root = foldl (\<lambda>root obj. demo_insert_object (size_bytes obj) [] (split (key obj) CHR ''/'') root)
                   root filteredObjects;
          root = (if hideKeepFiles
                  then foldl (\<lambda>root obj.
                          if endsWith (key obj) ''/.keep''
                          then demo_insert_folder [] (split (replace_first (key obj) ''/.keep'') CHR ''/'') root
                          else root)
                        root objects
                  else root)
      in demo_sortNodes localeCompare root)"

text \<open>A sample collation for running the builder: the order of the character codes.\<close>

fun compareChars :: "string \<Rightarrow> string \<Rightarrow> int" where
  "compareChars [] [] = 0"
| "compareChars [] (d # t) = - 1"
| "compareChars (c # s) [] = 1"
| "compareChars (c # s) (d # t) =
     (if (of_char c :: nat) < of_char d then - 1
      else if (of_char d :: nat) < of_char c then 1
      else compareChars s t)"

text \<open>
  A second sample collation: the order of the character codes after folding the case
  of the ASCII letters, so that \<open>a\<close> comes before \<open>B\<close> as it does in the collations of
  a host with locale data, where the order of the character codes, that of a host
  without, has \<open>B\<close> before \<open>a\<close>.
\<close>

definition compareFolded :: "string \<Rightarrow> string \<Rightarrow> int" where
  "compareFolded a b = compareChars (toLowerCase a) (toLowerCase b)"

section \<open>Vocabulary for the properties of the file tree\<close>

definition consistent :: "(string \<Rightarrow> string \<Rightarrow> int) \<Rightarrow> bool" where
  "consistent localeCompare \<longleftrightarrow>
     (\<forall>a b. localeCompare a b \<le> 0 \<or> localeCompare b a \<le> 0)
     \<and> (\<forall>a b c. localeCompare a b \<le> 0 \<and> localeCompare b c \<le> 0 \<longrightarrow> localeCompare a c \<le> 0)"

definition folders_first :: "(string \<Rightarrow> string \<Rightarrow> int) \<Rightarrow> TreeNode \<Rightarrow> TreeNode \<Rightarrow> bool" where
  "folders_first localeCompare a b \<longleftrightarrow>
     (type a = Folder \<and> type b = File)
     \<or> (type a = type b \<and> localeCompare (name a) (name b) \<le> 0)"

definition by_name :: "(string \<Rightarrow> string \<Rightarrow> int) \<Rightarrow> TreeNode \<Rightarrow> TreeNode \<Rightarrow> bool" where
  "by_name localeCompare a b \<longleftrightarrow> localeCompare (name a) (name b) \<le> 0"

fun levels_sorted :: "(TreeNode \<Rightarrow> TreeNode \<Rightarrow> bool) \<Rightarrow> TreeNode list \<Rightarrow> bool" where
  "levels_sorted before nodes =
     (sorted_wrt before nodes
      \<and> (\<forall>node \<in> set nodes.
            case children node of None \<Rightarrow> True | Some ch \<Rightarrow> levels_sorted before ch))"

declare levels_sorted.simps [simp del]

text \<open>The non-empty parts of a key: the names on the way to its node.\<close>

definition segments :: "string \<Rightarrow> string list" where
  "segments k = filter (\<lambda>part. part \<noteq> []) (split k CHR ''/'')"

text \<open>
  Following a list of names down from a sibling list: the first node of the first
  name, then on through its children.
\<close>

fun lookup :: "TreeNode list \<Rightarrow> string list \<Rightarrow> TreeNode option" where
  "lookup nodes [] = None"
| "lookup nodes [s] = find (\<lambda>node. name node = s) nodes"
| "lookup nodes (s # t # ts) =
     (case find (\<lambda>node. name node = s) nodes of
        None \<Rightarrow> None
      | Some node \<Rightarrow> (case children node of None \<Rightarrow> None | Some ch \<Rightarrow> lookup ch (t # ts)))"

text \<open>All nodes of a tree, parents before their children.\<close>

fun all_nodes :: "TreeNode list \<Rightarrow> TreeNode list" where
  "all_nodes nodes =
     concat (map (\<lambda>node. node # (case children node of None \<Rightarrow> [] | Some ch \<Rightarrow> all_nodes ch))
               nodes)"

declare all_nodes.simps [simp del]

text \<open>
  The shape every tree of the builder has: the names in a sibling list are distinct,
  files have no children and folders have a list of them.
\<close>

fun well_formed :: "TreeNode list \<Rightarrow> bool" where
  "well_formed nodes =
     (distinct (map name nodes)
      \<and> (\<forall>node \<in> set nodes.
            case children node of
              None \<Rightarrow> type node = File
            | Some ch \<Rightarrow> type node = Folder \<and> well_formed ch))"

declare well_formed.simps [simp del]

text \<open>No list of names is an initial part of another one (or equal to it).\<close>

fun prefix_free :: "string list list \<Rightarrow> bool" where
  "prefix_free [] = True"
| "prefix_free (k # ks) =
     ((\<forall>k' \<in> set ks. \<not> prefix k k' \<and> \<not> prefix k' k) \<and> prefix_free ks)"

text \<open>The objects the first pass works on.\<close>

definition filteredObjects :: "'a R2ObjectItem_scheme list \<Rightarrow> bool \<Rightarrow> 'a R2ObjectItem_scheme list" where
  "filteredObjects objects hideKeepFiles =
     (if hideKeepFiles
      then filter (\<lambda>obj. \<not> endsWith (key obj) ''/.keep'' \<and> key obj \<noteq> ''.keep'') objects
      else objects)"

text \<open>The file node of an object.\<close>

definition file_node :: "'a R2ObjectItem_scheme \<Rightarrow> TreeNode" where
  "file_node obj =
     TreeNode (last (segments (key obj))) (key obj) File (Some (size_bytes obj)) None"

text \<open>
  A list of names is free in a tree: no node lies at it, and no file lies at an
  initial part of it.
\<close>

definition no_conflict :: "TreeNode list \<Rightarrow> string list \<Rightarrow> bool" where
  "no_conflict nodes segs \<longleftrightarrow>
     lookup nodes segs = None
     \<and> (\<forall>a. a \<noteq> [] \<and> strict_prefix a segs \<longrightarrow>
            (case lookup nodes a of None \<Rightarrow> True | Some n \<Rightarrow> type n = Folder))"

text \<open>
  Every file of a tree lies at one of the given lists of names and every folder at a
  proper initial part of one.
\<close>

definition covered :: "TreeNode list \<Rightarrow> string list list \<Rightarrow> bool" where
  "covered nodes ks \<longleftrightarrow>
     well_formed nodes
     \<and> (\<forall>a n. lookup nodes a = Some n \<longrightarrow>
            (if type n = File then a \<in> set ks else (\<exists>k \<in> set ks. strict_prefix a k)))"

text \<open>A node with its children sorted, as the \<open>map\<close> in \<open>sortNodes\<close> leaves it.\<close>

definition sorted_node :: "(string \<Rightarrow> string \<Rightarrow> int) \<Rightarrow> TreeNode \<Rightarrow> TreeNode" where
  "sorted_node lc node =
     (case children node of Some ch \<Rightarrow> with_children node (sortNodes lc ch) | None \<Rightarrow> node)"

abbreviation find_name :: "string \<Rightarrow> TreeNode list \<Rightarrow> TreeNode option" where
  "find_name s nodes \<equiv> find (\<lambda>node. name node = s) nodes"

text \<open>One node is the other up to the content of its list of children.\<close>

definition same_node :: "TreeNode \<Rightarrow> TreeNode \<Rightarrow> bool" where
  "same_node n n' \<longleftrightarrow>
     name n' = name n \<and> path n' = path n \<and> type n' = type n \<and> size_opt n' = size_opt n
     \<and> (children n' = None \<longleftrightarrow> children n = None)"

text \<open>The two passes of \<open>buildFileTree\<close> over the objects.\<close>

definition first_pass :: "'a R2ObjectItem_scheme list \<Rightarrow> TreeNode list" where
  "first_pass objs =
     foldl (\<lambda>root obj. insert_object (size_bytes obj) [] (split (key obj) CHR ''/'') root) [] objs"

definition second_pass :: "'a R2ObjectItem_scheme list \<Rightarrow> TreeNode list \<Rightarrow> TreeNode list" where
  "second_pass objs nodes =
     foldl (\<lambda>root obj.
              if endsWith (key obj) ''/.keep''
              then insert_folder [] (split (replace_first (key obj) ''/.keep'') CHR ''/'') root
              else root)
       nodes objs"

abbreviation nonempty :: "string list \<Rightarrow> string list" where
  "nonempty parts \<equiv> filter (\<lambda>part. part \<noteq> []) parts"

text \<open>A small bucket: two files in folders, one at the top and a \<open>.keep\<close> marker.\<close>

definition example_objects :: "R2ObjectItem list" where
  "example_objects =
     [\<lparr>key = ''docs/a.txt'', size_bytes = 3\<rparr>,
      \<lparr>key = ''docs/img/b.png'', size_bytes = 7\<rparr>,
      \<lparr>key = ''readme.md'', size_bytes = 1\<rparr>,
      \<lparr>key = ''empty/.keep'', size_bytes = 0\<rparr>]"

text \<open>The nodes of type \<open>file\<close> of a tree.\<close>

definition files :: "TreeNode list \<Rightarrow> TreeNode set" where
  "files nodes = {n \<in> set (all_nodes nodes). type n = File}"

text \<open>No file lies at a non-empty initial part of a list of names, or at the list itself.\<close>

definition no_file_on :: "TreeNode list \<Rightarrow> string list \<Rightarrow> bool" where
  "no_file_on nodes segs \<longleftrightarrow>
     (\<forall>a. a \<noteq> [] \<and> prefix a segs \<longrightarrow>
          (case lookup nodes a of None \<Rightarrow> True | Some n \<Rightarrow> type n = Folder))"

text \<open>The names that occur in a tree.\<close>

definition node_names :: "TreeNode list \<Rightarrow> string set" where
  "node_names nodes = name ` set (all_nodes nodes)"

text \<open>Two objects with the keys \<open>B\<close> and \<open>a\<close>.\<close>

definition mixed_case_objects :: "R2ObjectItem list" where
  "mixed_case_objects = [\<lparr>key = ''B'', size_bytes = 1\<rparr>, \<lparr>key = ''a'', size_bytes = 2\<rparr>]"

chapter \<open>Properties\<close>

section \<open>Properties of the Counter\<close>

lemma to_double_exact: "\<bar>n\<bar> \<le> 2 ^ 53 \<Longrightarrow> to_double n = n"
  by (simp add: to_double_def)

lemma Counter_fetch_increment:
  assumes "parser url = Inr ''/increment''"
  shows "Counter_fetch parser url this =
           Inr (value_response (to_double (loaded this + 1)),
            this\<lparr>this_value := to_double (loaded this + 1),
                 ctx_storage := (ctx_storage this)(''value'' \<mapsto> to_double (loaded this + 1))\<rparr>)"
  using assms
  by (simp add: Counter_fetch_def storage_get_def storage_put_def value_json_def
      value_response_def loaded_def Let_def)

lemma Counter_fetch_decrement:
  assumes "parser url = Inr ''/decrement''"
  shows "Counter_fetch parser url this =
           Inr (value_response (to_double (loaded this - 1)),
            this\<lparr>this_value := to_double (loaded this - 1),
                 ctx_storage := (ctx_storage this)(''value'' \<mapsto> to_double (loaded this - 1))\<rparr>)"
  using assms
  by (simp add: Counter_fetch_def storage_get_def storage_put_def value_json_def
      value_response_def loaded_def Let_def)

lemma Counter_fetch_reset:
  assumes "parser url = Inr ''/reset''"
  shows "Counter_fetch parser url this =
           Inr (value_response 0,
            this\<lparr>this_value := 0, ctx_storage := (ctx_storage this)(''value'' \<mapsto> 0)\<rparr>)"
  using assms
  by (simp add: Counter_fetch_def storage_get_def storage_put_def value_json_def
      value_response_def Let_def)

lemma Counter_fetch_other:
  assumes "parser url = Inr p" and "p \<notin> {''/increment'', ''/decrement'', ''/reset''}"
  shows "Counter_fetch parser url this =
           Inr (value_response (loaded this), this\<lparr>this_value := loaded this\<rparr>)"
  using assms
  by (simp add: Counter_fetch_def storage_get_def value_json_def
      value_response_def loaded_def Let_def)

lemma Counter_fetch_throws:
  assumes "parser url = Inl e"
  shows "Counter_fetch parser url this = Inl e"
  using assms by (simp add: Counter_fetch_def)

lemma Counter_fetch_ignores_field:
  "Counter_fetch parser url (this\<lparr>this_value := x\<rparr>) = Counter_fetch parser url this"
  by (cases "parser url")
    (simp_all add: Counter_fetch_def storage_get_def storage_put_def value_json_def Let_def)

lemma stub_fetch_increment:
  assumes "parser url = Inr ''/increment''"
    and "- (2 ^ 53) \<le> stored ns cname" and "stored ns cname < 2 ^ 53"
  shows "fst (stub_fetch parser cname url ns) = Inr (value_response (stored ns cname + 1))
     \<and> ctx_storage (snd (stub_fetch parser cname url ns) cname) ''value''
         = Some (stored ns cname + 1)
     \<and> stored (snd (stub_fetch parser cname url ns)) cname = stored ns cname + 1"
proof -
  have "to_double (loaded (ns cname) + 1) = loaded (ns cname) + 1"
    using assms(2,3) by (intro to_double_exact) (simp add: stored_def)
  then show ?thesis
    using Counter_fetch_increment [of parser url "ns cname"] assms(1)
    by (simp add: stub_fetch_def stored_def loaded_def)
qed

lemma stub_fetch_decrement:
  assumes "parser url = Inr ''/decrement''"
    and "- (2 ^ 53) < stored ns cname" and "stored ns cname \<le> 2 ^ 53"
  shows "fst (stub_fetch parser cname url ns) = Inr (value_response (stored ns cname - 1))
     \<and> ctx_storage (snd (stub_fetch parser cname url ns) cname) ''value''
         = Some (stored ns cname - 1)
     \<and> stored (snd (stub_fetch parser cname url ns)) cname = stored ns cname - 1"
proof -
  have "to_double (loaded (ns cname) - 1) = loaded (ns cname) - 1"
    using assms(2,3) by (intro to_double_exact) (simp add: stored_def)
  then show ?thesis
    using Counter_fetch_decrement [of parser url "ns cname"] assms(1)
    by (simp add: stub_fetch_def stored_def loaded_def)
qed

lemma stub_fetch_reset:
  assumes "parser url = Inr ''/reset''"
  shows "fst (stub_fetch parser cname url ns) = Inr (value_response 0)
     \<and> ctx_storage (snd (stub_fetch parser cname url ns) cname) ''value'' = Some 0
     \<and> stored (snd (stub_fetch parser cname url ns)) cname = 0"
  using Counter_fetch_reset [of parser url "ns cname"] assms
  by (simp add: stub_fetch_def stored_def loaded_def)

lemma stub_fetch_other:
  assumes "parser url = Inr p" and "p \<notin> {''/increment'', ''/decrement'', ''/reset''}"
  shows "fst (stub_fetch parser cname url ns) = Inr (value_response (stored ns cname))
     \<and> ctx_storage (snd (stub_fetch parser cname url ns) cname) = ctx_storage (ns cname)
     \<and> stored (snd (stub_fetch parser cname url ns)) cname = stored ns cname"
  using Counter_fetch_other [of parser url p "ns cname"] assms
  by (simp add: stub_fetch_def stored_def loaded_def)

lemma stub_fetch_throws:
  assumes "parser url = Inl e"
  shows "stub_fetch parser cname url ns = (Inl e, ns)"
  using Counter_fetch_throws [of parser url e "ns cname"] assms by (simp add: stub_fetch_def)

lemma stub_fetch_ignores_field:
  "fst (stub_fetch parser cname url (ns(cname := (ns cname)\<lparr>this_value := x\<rparr>)))
     = fst (stub_fetch parser cname url ns)"
  "ctx_storage (snd (stub_fetch parser cname url (ns(cname := (ns cname)\<lparr>this_value := x\<rparr>)))
       cname)
     = ctx_storage (snd (stub_fetch parser cname url ns) cname)"
proof -
  let ?c = "Counter_fetch parser url (ns cname)"
  have e: "Counter_fetch parser url ((ns cname)\<lparr>this_value := x\<rparr>) = ?c"
    by (rule Counter_fetch_ignores_field)
  show "fst (stub_fetch parser cname url (ns(cname := (ns cname)\<lparr>this_value := x\<rparr>)))
     = fst (stub_fetch parser cname url ns)"
    by (cases ?c) (auto simp add: stub_fetch_def e)
  show "ctx_storage (snd (stub_fetch parser cname url (ns(cname := (ns cname)\<lparr>this_value := x\<rparr>)))
       cname)
     = ctx_storage (snd (stub_fetch parser cname url ns) cname)"
    by (cases ?c) (auto simp add: stub_fetch_def e)
qed

lemma stub_fetch_frame:
  "other \<noteq> cname \<Longrightarrow> snd (stub_fetch parser cname url ns) other = ns other"
  by (simp add: stub_fetch_def split: sum.splits prod.splits)

text \<open>
  Claim C4. Let \<open>v\<close> be the number stored for a counter name (0 when nothing is
  stored), a whole number. A request to that name's object whose URL has the path
  \<open>/increment\<close> answers and stores \<open>v + 1\<close> when \<open>- 2 ^ 53 \<le> v < 2 ^ 53\<close>; one with the
  path \<open>/decrement\<close> answers and stores \<open>v - 1\<close> when \<open>- 2 ^ 53 < v \<le> 2 ^ 53\<close>; one with
  the path \<open>/reset\<close> answers and stores \<open>0\<close>; on any other path it answers \<open>v\<close> and
  leaves the storage as it was. The answer does not depend on the in-memory field,
  only on the storage; the objects of other names are untouched; the next request to
  the same name starts from the number just answered; and a request whose URL the
  parser rejects throws and changes nothing. The four routes of the worker are the
  requests with the URLs \<open>http://counter/\<close>, \<open>http://counter/increment\<close>,
  \<open>http://counter/decrement\<close> and \<open>http://counter/reset\<close>, so with a parser that gives
  these the paths \<open>/\<close>, \<open>/increment\<close>, \<open>/decrement\<close> and \<open>/reset\<close> they read, increment,
  decrement and reset the counter of the name.
\<close>

theorem counter_requests:
  fixes ns :: namespace
  assumes r: "r = stub_fetch parser cname url ns"
    and v: "v = stored ns cname"
  shows
    "(parser url = Inr ''/increment'' \<and> - (2 ^ 53) \<le> v \<and> v < 2 ^ 53 \<longrightarrow>
        fst r = Inr (value_response (v + 1))
        \<and> ctx_storage (snd r cname) ''value'' = Some (v + 1)
        \<and> stored (snd r) cname = v + 1)
     \<and> (parser url = Inr ''/decrement'' \<and> - (2 ^ 53) < v \<and> v \<le> 2 ^ 53 \<longrightarrow>
        fst r = Inr (value_response (v - 1))
        \<and> ctx_storage (snd r cname) ''value'' = Some (v - 1)
        \<and> stored (snd r) cname = v - 1)
     \<and> (parser url = Inr ''/reset'' \<longrightarrow>
        fst r = Inr (value_response 0) \<and> ctx_storage (snd r cname) ''value'' = Some 0
        \<and> stored (snd r) cname = 0)
     \<and> (\<forall>p. parser url = Inr p \<and> p \<notin> {''/increment'', ''/decrement'', ''/reset''} \<longrightarrow>
        fst r = Inr (value_response v) \<and> ctx_storage (snd r cname) = ctx_storage (ns cname)
        \<and> stored (snd r) cname = v)
     \<and> (\<forall>e. parser url = Inl e \<longrightarrow> r = (Inl e, ns))
     \<and> (\<forall>x. fst (stub_fetch parser cname url (ns(cname := (ns cname)\<lparr>this_value := x\<rparr>)))
              = fst r
            \<and> ctx_storage
                (snd (stub_fetch parser cname url (ns(cname := (ns cname)\<lparr>this_value := x\<rparr>)))
                   cname)
              = ctx_storage (snd r cname))
     \<and> (\<forall>other. other \<noteq> cname \<longrightarrow> snd r other = ns other)
     \<and> (parser ''http://counter/'' = Inr ''/'' \<longrightarrow>
        fst (get_counter parser cname ns) = Inr (value_response v)
        \<and> stored (snd (get_counter parser cname ns)) cname = v)
     \<and> (parser ''http://counter/increment'' = Inr ''/increment''
          \<and> - (2 ^ 53) \<le> v \<and> v < 2 ^ 53 \<longrightarrow>
        fst (post_counter_increment parser cname ns) = Inr (value_response (v + 1))
        \<and> stored (snd (post_counter_increment parser cname ns)) cname = v + 1)
     \<and> (parser ''http://counter/decrement'' = Inr ''/decrement''
          \<and> - (2 ^ 53) < v \<and> v \<le> 2 ^ 53 \<longrightarrow>
        fst (post_counter_decrement parser cname ns) = Inr (value_response (v - 1))
        \<and> stored (snd (post_counter_decrement parser cname ns)) cname = v - 1)
     \<and> (parser ''http://counter/reset'' = Inr ''/reset'' \<longrightarrow>
        fst (post_counter_reset parser cname ns) = Inr (value_response 0)
        \<and> stored (snd (post_counter_reset parser cname ns)) cname = 0)"
proof -
  have inc: "parser url = Inr ''/increment'' \<and> - (2 ^ 53) \<le> v \<and> v < 2 ^ 53 \<longrightarrow>
        fst r = Inr (value_response (v + 1))
        \<and> ctx_storage (snd r cname) ''value'' = Some (v + 1)
        \<and> stored (snd r) cname = v + 1"
    unfolding r v using stub_fetch_increment [of parser url ns cname] by blast
  have dec: "parser url = Inr ''/decrement'' \<and> - (2 ^ 53) < v \<and> v \<le> 2 ^ 53 \<longrightarrow>
        fst r = Inr (value_response (v - 1))
        \<and> ctx_storage (snd r cname) ''value'' = Some (v - 1)
        \<and> stored (snd r) cname = v - 1"
    unfolding r v using stub_fetch_decrement [of parser url ns cname] by blast
  have res: "parser url = Inr ''/reset'' \<longrightarrow>
        fst r = Inr (value_response 0) \<and> ctx_storage (snd r cname) ''value'' = Some 0
        \<and> stored (snd r) cname = 0"
    unfolding r v using stub_fetch_reset [of parser url cname ns] by blast
  have oth: "\<forall>p. parser url = Inr p \<and> p \<notin> {''/increment'', ''/decrement'', ''/reset''} \<longrightarrow>
        fst r = Inr (value_response v) \<and> ctx_storage (snd r cname) = ctx_storage (ns cname)
        \<and> stored (snd r) cname = v"
    unfolding r v using stub_fetch_other [of parser url _ cname ns] by blast
  have thr: "\<forall>e. parser url = Inl e \<longrightarrow> r = (Inl e, ns)"
    unfolding r using stub_fetch_throws [of parser url _ cname ns] by blast
  have fld: "\<forall>x. fst (stub_fetch parser cname url (ns(cname := (ns cname)\<lparr>this_value := x\<rparr>)))
              = fst r
            \<and> ctx_storage
                (snd (stub_fetch parser cname url (ns(cname := (ns cname)\<lparr>this_value := x\<rparr>)))
                   cname)
              = ctx_storage (snd r cname)"
    unfolding r by (simp add: stub_fetch_ignores_field)
  have frame: "\<forall>other. other \<noteq> cname \<longrightarrow> snd r other = ns other"
    unfolding r by (simp add: stub_fetch_frame)
  have r0: "parser ''http://counter/'' = Inr ''/'' \<longrightarrow>
        fst (get_counter parser cname ns) = Inr (value_response v)
        \<and> stored (snd (get_counter parser cname ns)) cname = v"
    unfolding v get_counter_def
    using stub_fetch_other [of parser "''http://counter/''" "''/''" cname ns] by simp
  have r1: "parser ''http://counter/increment'' = Inr ''/increment''
          \<and> - (2 ^ 53) \<le> v \<and> v < 2 ^ 53 \<longrightarrow>
        fst (post_counter_increment parser cname ns) = Inr (value_response (v + 1))
        \<and> stored (snd (post_counter_increment parser cname ns)) cname = v + 1"
    unfolding v post_counter_increment_def
    using stub_fetch_increment [of parser "''http://counter/increment''" ns cname] by blast
  have r2: "parser ''http://counter/decrement'' = Inr ''/decrement''
          \<and> - (2 ^ 53) < v \<and> v \<le> 2 ^ 53 \<longrightarrow>
        fst (post_counter_decrement parser cname ns) = Inr (value_response (v - 1))
        \<and> stored (snd (post_counter_decrement parser cname ns)) cname = v - 1"
    unfolding v post_counter_decrement_def
    using stub_fetch_decrement [of parser "''http://counter/decrement''" ns cname] by blast
  have r3: "parser ''http://counter/reset'' = Inr ''/reset'' \<longrightarrow>
        fst (post_counter_reset parser cname ns) = Inr (value_response 0)
        \<and> stored (snd (post_counter_reset parser cname ns)) cname = 0"
    unfolding v post_counter_reset_def
    using stub_fetch_reset [of parser "''http://counter/reset''" cname ns] by blast
  from inc dec res oth thr fld frame r0 r1 r2 r3 show ?thesis by blast
qed

lemma counter_at_stored: "stored (counter_at v) cname = v"
  by (simp add: counter_at_def stored_def loaded_def)

theorem counter_requests_witness:
  "fst (post_counter_increment example_URL_pathname ''hits'' (counter_at 7))
     = Inr (value_response 8)
   \<and> stored (snd (post_counter_increment example_URL_pathname ''hits'' (counter_at 7))) ''hits''
     = 8
   \<and> fst (post_counter_decrement example_URL_pathname ''hits'' (counter_at 7))
     = Inr (value_response 6)
   \<and> fst (post_counter_reset example_URL_pathname ''hits'' (counter_at 7))
     = Inr (value_response 0)
   \<and> fst (get_counter example_URL_pathname ''hits'' (counter_at 7)) = Inr (value_response 7)
   \<and> fst (post_counter_increment example_URL_pathname ''hits'' (counter_at 9007199254740991))
     = Inr (value_response 9007199254740992)"
  using
    counter_requests [OF refl refl, where parser = example_URL_pathname
      and cname = "''hits''" and url = "''http://counter/''" and ns = "counter_at 7"]
    counter_requests [OF refl refl, where parser = example_URL_pathname
      and cname = "''hits''" and url = "''http://counter/''"
      and ns = "counter_at 9007199254740991"]
  by (simp add: counter_at_stored example_URL_pathname_def)

text \<open>
  Beyond \<open>2 ^ 53\<close> the whole numbers are not all doubles: at the stored number
  \<open>2 ^ 53 = 9007199254740992\<close> the exact sum \<open>2 ^ 53 + 1\<close> lies half-way between two
  doubles and is rounded to the even one, so \<open>/increment\<close> answers and stores
  \<open>2 ^ 53\<close> again, not \<open>2 ^ 53 + 1\<close>.
\<close>

theorem increment_saturates_counterexample:
  "fst (post_counter_increment example_URL_pathname ''hits'' (counter_at 9007199254740992))
     = Inr (value_response 9007199254740992)
   \<and> stored (snd (post_counter_increment example_URL_pathname ''hits''
                    (counter_at 9007199254740992))) ''hits''
     = 9007199254740992
   \<and> stored (counter_at 9007199254740992) ''hits'' + 1 = 9007199254740993"
proof -
  have b: "bit_length 9007199254740993 = 54"
    by code_simp
  have "to_double 9007199254740993 = 9007199254740992"
    by (simp add: to_double_def b Let_def)
  then show ?thesis
    using Counter_fetch_increment [of example_URL_pathname "''http://counter/increment''"
        "counter_at 9007199254740992 ''hits''"]
    by (simp add: post_counter_increment_def stub_fetch_def example_URL_pathname_def
        counter_at_def stored_def loaded_def)
qed

section \<open>Properties of the read-by-key routes\<close>

lemma get_user_cases:
  "DB_first env ''SELECT * FROM users WHERE id = ?'' [uid] = Inl e \<Longrightarrow> get_user env uid = Inl e"
  "DB_first env ''SELECT * FROM users WHERE id = ?'' [uid] = Inr None \<Longrightarrow> is_404 (get_user env uid)"
  "DB_first env ''SELECT * FROM users WHERE id = ?'' [uid] = Inr (Some row) \<Longrightarrow>
     get_user env uid = Inr (Response_json (JObj row) 200)"
  by (simp_all add: get_user_def is_404_def Response_json_def)

lemma get_kv_cases:
  "CACHE_get env k = Inl e \<Longrightarrow> get_kv env k = Inl e"
  "CACHE_get env k = Inr None \<Longrightarrow> is_404 (get_kv env k)"
  "CACHE_get env k = Inr (Some v) \<Longrightarrow>
     get_kv env k = Inr (Response_json (JObj [(''key'', JStr k), (''value'', JStr v)]) 200)"
  by (simp_all add: get_kv_def is_404_def Response_json_def)

lemma get_file_cases:
  "STORAGE_get env k = Inl e \<Longrightarrow> get_file env k = Inl e"
  "STORAGE_get env k = Inr None \<Longrightarrow> is_404 (get_file env k)"
  "STORAGE_get env k = Inr (Some obj) \<Longrightarrow>
     get_file env k =
       Inr \<lparr>status = 200, headers = [(''Content-Type'', content_type_of obj)],
            body = Stream (object_body obj)\<rparr>"
  by (simp_all add: get_file_def is_404_def Response_json_def content_type_of_def
      split: option.splits)

text \<open>
  Claim C5. Each read-by-key route answers 404 with an error body exactly when the
  lookup of its binding returns \<open>null\<close>; when the lookup returns a value the route
  answers 200 with that value (the row, the key with its value, the object's body with
  its content type); and the only failure of a route is the failure of the lookup
  itself, passed on unchanged.
\<close>

theorem read_routes_not_found:
  "(is_404 (get_user env uid) \<longleftrightarrow>
        DB_first env ''SELECT * FROM users WHERE id = ?'' [uid] = Inr None)
   \<and> (\<forall>row. DB_first env ''SELECT * FROM users WHERE id = ?'' [uid] = Inr (Some row) \<longrightarrow>
        get_user env uid = Inr (Response_json (JObj row) 200))
   \<and> (\<forall>e. get_user env uid = Inl e \<longleftrightarrow>
        DB_first env ''SELECT * FROM users WHERE id = ?'' [uid] = Inl e)
   \<and> (is_404 (get_kv env k) \<longleftrightarrow> CACHE_get env k = Inr None)
   \<and> (\<forall>v. CACHE_get env k = Inr (Some v) \<longrightarrow>
        get_kv env k = Inr (Response_json (JObj [(''key'', JStr k), (''value'', JStr v)]) 200))
   \<and> (\<forall>e. get_kv env k = Inl e \<longleftrightarrow> CACHE_get env k = Inl e)
   \<and> (is_404 (get_file env k) \<longleftrightarrow> STORAGE_get env k = Inr None)
   \<and> (\<forall>obj. STORAGE_get env k = Inr (Some obj) \<longrightarrow>
        get_file env k =
          Inr \<lparr>status = 200, headers = [(''Content-Type'', content_type_of obj)],
               body = Stream (object_body obj)\<rparr>)
   \<and> (\<forall>e. get_file env k = Inl e \<longleftrightarrow> STORAGE_get env k = Inl e)"
proof -
  let ?q = "DB_first env ''SELECT * FROM users WHERE id = ?'' [uid]"
  have u1: "is_404 (get_user env uid) \<longleftrightarrow> ?q = Inr None"
    by (cases ?q) (auto simp: get_user_def is_404_def Response_json_def split: option.splits)
  have u2: "\<forall>e. get_user env uid = Inl e \<longleftrightarrow> ?q = Inl e"
    by (cases ?q) (auto simp: get_user_def split: option.splits)
  have k1: "is_404 (get_kv env k) \<longleftrightarrow> CACHE_get env k = Inr None"
    by (cases "CACHE_get env k")
      (auto simp: get_kv_def is_404_def Response_json_def split: option.splits)
  have k2: "\<forall>e. get_kv env k = Inl e \<longleftrightarrow> CACHE_get env k = Inl e"
    by (cases "CACHE_get env k") (auto simp: get_kv_def split: option.splits)
  have f1: "is_404 (get_file env k) \<longleftrightarrow> STORAGE_get env k = Inr None"
    by (cases "STORAGE_get env k")
      (auto simp: get_file_def is_404_def Response_json_def split: option.splits)
  have f2: "\<forall>e. get_file env k = Inl e \<longleftrightarrow> STORAGE_get env k = Inl e"
    by (cases "STORAGE_get env k") (auto simp: get_file_def split: option.splits)
  show ?thesis
    using u1 u2 k1 k2 f1 f2 get_user_cases(3) get_kv_cases(3) get_file_cases(3)
    by blast
qed

theorem read_routes_not_found_witness:
  "is_404 (get_user \<lparr>DB_first = (\<lambda>sql ps. Inr None), CACHE_get = (\<lambda>k. Inr (Some ''v'')),
                     STORAGE_get = (\<lambda>k. Inl (Error ''down''))\<rparr> ''7'')
   \<and> get_kv \<lparr>DB_first = (\<lambda>sql ps. Inr None), CACHE_get = (\<lambda>k. Inr (Some ''v'')),
             STORAGE_get = (\<lambda>k. Inl (Error ''down''))\<rparr> ''k''
       = Inr (Response_json (JObj [(''key'', JStr ''k''), (''value'', JStr ''v'')]) 200)
   \<and> get_file \<lparr>DB_first = (\<lambda>sql ps. Inr None), CACHE_get = (\<lambda>k. Inr (Some ''v'')),
               STORAGE_get = (\<lambda>k. Inl (Error ''down''))\<rparr> ''k'' = Inl (Error ''down'')"
  using read_routes_not_found [where uid = "''7''" and k = "''k''"
      and env = "\<lparr>DB_first = (\<lambda>sql ps. Inr None), CACHE_get = (\<lambda>k. Inr (Some ''v'')),
                   STORAGE_get = (\<lambda>k. Inl (Error ''down''))\<rparr>"]
  by simp

section \<open>Properties of the emulator options\<close>

lemma fromEntries_fold_map_of:
  "map_of (foldl (\<lambda>obj (k, v). AList.update k v obj) acc entries)
     = map_of acc ++ map_of (rev entries)"
proof (induction entries arbitrary: acc)
  case Nil
  show ?case by simp
next
  case (Cons e entries)
  obtain k v where e: "e = (k, v)" by (cases e)
  let ?f = "\<lambda>obj (k, v). AList.update k v obj"
  have "map_of (foldl ?f acc (e # entries)) = map_of (foldl ?f (AList.update k v acc) entries)"
    by (simp add: e)
  also have "\<dots> = map_of (AList.update k v acc) ++ map_of (rev entries)"
    by (rule Cons.IH)
  also have "\<dots> = (map_of acc)(k \<mapsto> v) ++ map_of (rev entries)"
    by (simp only: update_conv')
  also have "\<dots> = map_of acc ++ ([k \<mapsto> v] ++ map_of (rev entries))"
    by (metis map_add_assoc map_add_empty map_add_upd)
  also have "\<dots> = map_of acc ++ map_of (rev (e # entries))"
    by (simp add: e)
  finally show ?case .
qed

lemma fromEntries_fold_keys:
  "fst ` set (foldl (\<lambda>obj (k, v). AList.update k v obj) acc entries)
     = fst ` set acc \<union> fst ` set entries"
proof (induction entries arbitrary: acc)
  case Nil
  show ?case by simp
next
  case (Cons e entries)
  obtain k v where e: "e = (k, v)" by (cases e)
  show ?case
    by (auto simp add: e Cons.IH dom_update)
qed

lemma fromEntries_fold_distinct:
  "distinct (map fst acc) \<Longrightarrow>
     distinct (map fst (foldl (\<lambda>obj (k, v). AList.update k v obj) acc entries))"
proof (induction entries arbitrary: acc)
  case Nil
  then show ?case by simp
next
  case (Cons e entries)
  obtain k v where e: "e = (k, v)" by (cases e)
  show ?case
    using Cons.prems by (simp add: e Cons.IH distinct_update)
qed

lemma Object_keys_set: "set (Object_keys obj) = fst ` set obj"
  by (auto simp add: Object_keys_def Let_def)

lemma Object_keys_distinct: "distinct (map fst obj) \<Longrightarrow> distinct (Object_keys obj)"
  by (auto simp add: Object_keys_def Let_def)

lemma Object_keys_length: "length (Object_keys obj) = length obj"
proof -
  have "length (Object_keys obj)
          = length (filter is_array_index (map fst obj))
            + length (filter (\<lambda>k. \<not> is_array_index k) (map fst obj))"
    by (simp add: Object_keys_def Let_def)
  also have "\<dots> = length (map fst obj)"
    by (rule sum_length_filter_compl)
  finally show ?thesis by simp
qed

lemma singleton_keys: "distinct ks \<Longrightarrow> set ks = {k} \<Longrightarrow> ks = [k]"
  by (cases ks) (auto simp add: subset_singleton_iff)

lemma once_unique:
  assumes "length (filter (\<lambda>e. fst e = k) entries) = 1"
    and "(k, v) \<in> set entries" and "(k, v') \<in> set entries"
  shows "v = v'"
proof -
  obtain x where x: "filter (\<lambda>e. fst e = k) entries = [x]"
    using assms(1) by (cases "filter (\<lambda>e. fst e = k) entries") auto
  have "(k, v) \<in> set (filter (\<lambda>e. fst e = k) entries)"
    and "(k, v') \<in> set (filter (\<lambda>e. fst e = k) entries)"
    using assms(2,3) by auto
  then show ?thesis
    by (auto simp add: x)
qed

lemma maps_names_fromEntries: "maps_names (Object_fromEntries entries) entries"
proof -
  let ?obj = "Object_fromEntries entries"
  have m: "map_of ?obj = map_of (rev entries)"
    by (simp add: Object_fromEntries_def fromEntries_fold_map_of)
  have keys: "set (Object_keys ?obj) = set (map fst entries)"
    by (simp add: Object_fromEntries_def Object_keys_set fromEntries_fold_keys)
  have dist: "distinct (Object_keys ?obj)"
    by (rule Object_keys_distinct) (simp add: Object_fromEntries_def fromEntries_fold_distinct)
  have some: "\<exists>v'. (k, v') \<in> set entries \<and> map_of ?obj k = Some v'"
    if kv: "(k, v) \<in> set entries" for k v
  proof -
    have "k \<in> fst ` set (rev entries)"
      using kv by force
    then obtain v' where v': "map_of (rev entries) k = Some v'"
      by (meson domD domI map_of_eq_None_iff not_None_eq)
    then have "(k, v') \<in> set entries"
      using map_of_SomeD by fastforce
    then show ?thesis
      using v' by (auto simp: m)
  qed
  have once: "map_of ?obj k = Some v"
    if kv: "(k, v) \<in> set entries" and one: "length (filter (\<lambda>e. fst e = k) entries) = 1" for k v
  proof -
    obtain v' where v': "(k, v') \<in> set entries" "map_of ?obj k = Some v'"
      using some [OF kv] by blast
    have "v = v'"
      using once_unique [OF one kv v'(1)] .
    then show ?thesis
      using v'(2) by simp
  qed
  show ?thesis
    unfolding maps_names_def Object_get_def
    using keys dist some once by fastforce
qed

lemma entry_ok_fromEntries:
  assumes "obj = Object_fromEntries (map (\<lambda>b. (name_of b, value_of b)) bs)"
  shows "entry_ok (if length (Object_keys obj) > 0 then Some obj else None) name_of value_of bs"
proof -
  have "set (Object_keys obj) = set (map name_of bs)"
    using maps_names_fromEntries [of "map (\<lambda>b. (name_of b, value_of b)) bs"]
    by (simp add: assms maps_names_def comp_def)
  then have "length (Object_keys obj) > 0 \<longleftrightarrow> bs \<noteq> []"
    by (metis length_greater_0_conv list.map_disc_iff set_empty)
  then show ?thesis
    using maps_names_fromEntries [of "map (\<lambda>b. (name_of b, value_of b)) bs"]
    by (simp add: entry_ok_def assms)
qed

lemma start_fields:
  assumes ok: "start out options = Inr (mo, url)"
    and config: "parseWranglerConfig out (resolve out [configPath options]) = Inr config"
    and b: "b = discoverBindings out config"
  shows "d1Databases mo =
           (let obj = Object_fromEntries (map (\<lambda>d. (d1_binding d, database_id d)) (d1 b))
            in if length (Object_keys obj) > 0 then Some obj else None)"
    and "kvNamespaces mo =
           (let obj = Object_fromEntries (map (\<lambda>d. (kv_binding d, kv_id d)) (kv b))
            in if length (Object_keys obj) > 0 then Some obj else None)"
    and "r2Buckets mo =
           (let obj = Object_fromEntries (map (\<lambda>d. (r2_binding d, bucket_name d)) (r2 b))
            in if length (Object_keys obj) > 0 then Some obj else None)"
    and "queueProducers mo =
           (let obj = Object_fromEntries (map (\<lambda>d. (queue_binding d, queue d)) (producers (queues b)))
            in if length (Object_keys obj) > 0 then Some obj else None)"
    and "mf_durableObjects mo =
           (let obj = Object_fromEntries (map (\<lambda>d. (do_name d, class_name d)) (durableObjects b))
            in if length (Object_keys obj) > 0 then Some obj else None)"
    and "miniflare_ready out mo = Inr url"
  using ok
  by (auto simp add: start_def config b Let_def split: sum.splits if_splits)

lemma start_succeeds:
  assumes config: "parseWranglerConfig out (resolve out [configPath options]) = Inr config"
    and built: "\<forall>entry. \<exists>text. esbuild_build out entry = Inr (Some text) \<and> text \<noteq> []"
    and ready: "\<forall>opts. \<exists>url. miniflare_ready out opts = Inr url"
  shows "\<exists>mo url. start out options = Inr (mo, url)"
proof -
  let ?entry = "resolve out [dirname out (resolve out [configPath options]),
             (case main config of None \<Rightarrow> ''src/index.ts''
              | Some m \<Rightarrow> if m = [] then ''src/index.ts'' else m)]"
  obtain script where script: "esbuild_build out ?entry = Inr (Some script)" "script \<noteq> []"
    using built by blast
  have nl: "miniflare_ready out opts \<noteq> Inl e" for opts e
    using ready by (metis sum.distinct(1))
  have "start out options \<noteq> Inl e" for e
    by (simp add: start_def config script Let_def nl split: sum.splits split del: if_split)
  then show ?thesis
    by (cases "start out options") auto
qed

text \<open>
  Claim C6. When \<open>start\<close> succeeds, the options object it returns is the one that was
  passed to the emulator; it has a \<open>d1Databases\<close> (\<open>kvNamespaces\<close>, \<open>r2Buckets\<close>,
  \<open>queueProducers\<close>, \<open>durableObjects\<close>) entry exactly when the discovered list of
  that kind is not empty, and the entry has the discovered names as its keys, each
  mapped to the \<open>database_id\<close> (\<open>id\<close>, \<open>bucket_name\<close>, \<open>queue\<close>, \<open>class_name\<close>)
  configured for that name. And \<open>start\<close> does succeed whenever the configuration
  parses, the bundler returns a non-empty script and the emulator comes up.
\<close>

theorem start_options_bindings:
  "(\<forall>mo url. start out options = Inr (mo, url) \<longrightarrow>
      (\<exists>b. discovered out options = Some b
         \<and> miniflare_ready out mo = Inr url
         \<and> entry_ok (d1Databases mo) d1_binding database_id (d1 b)
         \<and> entry_ok (kvNamespaces mo) kv_binding kv_id (kv b)
         \<and> entry_ok (r2Buckets mo) r2_binding bucket_name (r2 b)
         \<and> entry_ok (queueProducers mo) queue_binding queue (producers (queues b))
         \<and> entry_ok (mf_durableObjects mo) do_name class_name (durableObjects b)))
   \<and> ((\<exists>config. parseWranglerConfig out (resolve out [configPath options]) = Inr config)
        \<and> (\<forall>entry. \<exists>text. esbuild_build out entry = Inr (Some text) \<and> text \<noteq> [])
        \<and> (\<forall>opts. \<exists>url. miniflare_ready out opts = Inr url)
      \<longrightarrow> (\<exists>mo url. start out options = Inr (mo, url)))"
proof -
  have "\<exists>b. discovered out options = Some b
         \<and> miniflare_ready out mo = Inr url
         \<and> entry_ok (d1Databases mo) d1_binding database_id (d1 b)
         \<and> entry_ok (kvNamespaces mo) kv_binding kv_id (kv b)
         \<and> entry_ok (r2Buckets mo) r2_binding bucket_name (r2 b)
         \<and> entry_ok (queueProducers mo) queue_binding queue (producers (queues b))
         \<and> entry_ok (mf_durableObjects mo) do_name class_name (durableObjects b)"
    if ok: "start out options = Inr (mo, url)" for mo url
  proof -
    obtain config
      where config: "parseWranglerConfig out (resolve out [configPath options]) = Inr config"
      using ok by (cases "parseWranglerConfig out (resolve out [configPath options])")
        (simp_all add: start_def Let_def)
    let ?b = "discoverBindings out config"
    have disc: "discovered out options = Some ?b"
      by (simp add: discovered_def config)
    note f = start_fields [OF ok config refl]
    have e1: "entry_ok (d1Databases mo) d1_binding database_id (d1 ?b)"
      unfolding f(1) Let_def by (rule entry_ok_fromEntries [OF refl])
    have e2: "entry_ok (kvNamespaces mo) kv_binding kv_id (kv ?b)"
      unfolding f(2) Let_def by (rule entry_ok_fromEntries [OF refl])
    have e3: "entry_ok (r2Buckets mo) r2_binding bucket_name (r2 ?b)"
      unfolding f(3) Let_def by (rule entry_ok_fromEntries [OF refl])
    have e4: "entry_ok (queueProducers mo) queue_binding queue (producers (queues ?b))"
      unfolding f(4) Let_def by (rule entry_ok_fromEntries [OF refl])
    have e5: "entry_ok (mf_durableObjects mo) do_name class_name (durableObjects ?b)"
      unfolding f(5) Let_def by (rule entry_ok_fromEntries [OF refl])
    show ?thesis
      using disc f(6) e1 e2 e3 e4 e5 by blast
  qed
  moreover have "\<exists>mo url. start out options = Inr (mo, url)"
    if "\<exists>config. parseWranglerConfig out (resolve out [configPath options]) = Inr config"
      and "\<forall>entry. \<exists>text. esbuild_build out entry = Inr (Some text) \<and> text \<noteq> []"
      and "\<forall>opts. \<exists>url. miniflare_ready out opts = Inr url"
    using that start_succeeds by blast
  ultimately show ?thesis by blast
qed

lemma example_discovered:
  "discovered example_outside example_options =
     Some \<lparr>d1 = [\<lparr>d1_binding = ''DB'', database_id = ''db-1''\<rparr>],
          kv = [\<lparr>kv_binding = ''CACHE'', kv_id = ''kv-1''\<rparr>,
                \<lparr>kv_binding = ''SESSIONS'', kv_id = ''kv-2''\<rparr>],
          r2 = [],
          queues = \<lparr>producers = []\<rparr>,
          durableObjects = [\<lparr>do_name = ''COUNTER'', class_name = ''Counter''\<rparr>],
          vars = [(''ENVIRONMENT'', ''dev'')]\<rparr>"
  by (simp add: discovered_def example_outside_def)

lemma example_outside_up:
  "\<exists>config. parseWranglerConfig example_outside
      (resolve example_outside [configPath example_options]) = Inr config"
  "\<forall>entry. \<exists>text. esbuild_build example_outside entry = Inr (Some text) \<and> text \<noteq> []"
  "\<forall>opts. \<exists>url. miniflare_ready example_outside opts = Inr url"
  "\<And>opts url. miniflare_ready example_outside opts = Inr url \<Longrightarrow> url = ''http://localhost:8787''"
  by (simp_all add: example_outside_def)

theorem start_options_bindings_witness:
  "\<exists>mo. start example_outside example_options = Inr (mo, ''http://localhost:8787'')
     \<and> miniflare_ready example_outside mo = Inr ''http://localhost:8787''
     \<and> (\<exists>obj. d1Databases mo = Some obj \<and> Object_keys obj = [''DB'']
           \<and> Object_get obj ''DB'' = Some ''db-1'')
     \<and> (\<exists>obj. kvNamespaces mo = Some obj \<and> set (Object_keys obj) = {''CACHE'', ''SESSIONS''}
           \<and> Object_get obj ''CACHE'' = Some ''kv-1''
           \<and> Object_get obj ''SESSIONS'' = Some ''kv-2'')
     \<and> r2Buckets mo = None
     \<and> queueProducers mo = None
     \<and> (\<exists>obj. mf_durableObjects mo = Some obj \<and> Object_keys obj = [''COUNTER'']
           \<and> Object_get obj ''COUNTER'' = Some ''Counter'')"
proof -
  note t = start_options_bindings [of example_outside example_options]
  obtain mo url where ok: "start example_outside example_options = Inr (mo, url)"
    using t example_outside_up(1,2,3) by blast
  have e: "miniflare_ready example_outside mo = Inr url"
    "entry_ok (d1Databases mo) d1_binding database_id
       [\<lparr>d1_binding = ''DB'', database_id = ''db-1''\<rparr>]"
    "entry_ok (kvNamespaces mo) kv_binding kv_id
       [\<lparr>kv_binding = ''CACHE'', kv_id = ''kv-1''\<rparr>,
        \<lparr>kv_binding = ''SESSIONS'', kv_id = ''kv-2''\<rparr>]"
    "entry_ok (r2Buckets mo) r2_binding bucket_name ([] :: R2BucketConfig list)"
    "entry_ok (queueProducers mo) queue_binding queue ([] :: QueueProducerConfig list)"
    "entry_ok (mf_durableObjects mo) do_name class_name
       [\<lparr>do_name = ''COUNTER'', class_name = ''Counter''\<rparr>]"
    using t ok by (auto simp add: example_discovered)
  have url: "url = ''http://localhost:8787''"
    using e(1) by (rule example_outside_up(4))
  have d1: "\<exists>obj. d1Databases mo = Some obj \<and> Object_keys obj = [''DB'']
           \<and> Object_get obj ''DB'' = Some ''db-1''"
    using e(2) by (auto simp add: entry_ok_def maps_names_def singleton_keys)
  have kv: "\<exists>obj. kvNamespaces mo = Some obj \<and> set (Object_keys obj) = {''CACHE'', ''SESSIONS''}
           \<and> Object_get obj ''CACHE'' = Some ''kv-1''
           \<and> Object_get obj ''SESSIONS'' = Some ''kv-2''"
    using e(3) by (auto simp add: entry_ok_def maps_names_def)
  have r2: "r2Buckets mo = None"
    using e(4) by (simp add: entry_ok_def)
  have q: "queueProducers mo = None"
    using e(5) by (simp add: entry_ok_def)
  have dobj: "\<exists>obj. mf_durableObjects mo = Some obj \<and> Object_keys obj = [''COUNTER'']
           \<and> Object_get obj ''COUNTER'' = Some ''Counter''"
    using e(6) by (auto simp add: entry_ok_def maps_names_def singleton_keys)
  show ?thesis
    using ok e(1) url d1 kv r2 q dobj by blast
qed

section \<open>Properties of the dummy-data generator\<close>

lemma type_name_facts:
  "\<not> str_includes ''INTEGER'' ''DATETIME''"
  "\<not> str_includes ''INTEGER'' ''TIMESTAMP''"
  "str_includes ''INTEGER'' ''INT''"
  "\<not> str_includes ''INTEGER'' ''REAL''"
  "\<not> str_includes ''INTEGER'' ''FLOAT''"
  "\<not> str_includes ''INTEGER'' ''DOUBLE''"
  "\<not> str_includes ''INTEGER'' ''BOOL''"
  "\<not> str_includes ''INTEGER'' ''NUMERIC''"
  "\<not> str_includes ''INTEGER'' ''DECIMAL''"
  "\<not> str_includes ''INTEGER'' ''BLOB''"
  "\<not> str_includes ''DATE'' ''DATETIME''"
  "\<not> str_includes ''DATE'' ''TIMESTAMP''"
  "\<not> str_includes ''DATE'' ''INT''"
  "\<not> str_includes ''DATE'' ''REAL''"
  "\<not> str_includes ''DATE'' ''FLOAT''"
  "\<not> str_includes ''DATE'' ''DOUBLE''"
  "\<not> str_includes ''DATE'' ''BOOL''"
  "\<not> str_includes ''DATE'' ''NUMERIC''"
  "\<not> str_includes ''DATE'' ''DECIMAL''"
  "\<not> str_includes ''DATE'' ''BLOB''"
  "\<not> str_includes ''TIME'' ''DATETIME''"
  "\<not> str_includes ''TIME'' ''TIMESTAMP''"
  "\<not> str_includes ''TIME'' ''INT''"
  "\<not> str_includes ''TIME'' ''REAL''"
  "\<not> str_includes ''TIME'' ''FLOAT''"
  "\<not> str_includes ''TIME'' ''DOUBLE''"
  "\<not> str_includes ''TIME'' ''BOOL''"
  "\<not> str_includes ''TIME'' ''NUMERIC''"
  "\<not> str_includes ''TIME'' ''DECIMAL''"
  "\<not> str_includes ''TIME'' ''BLOB''"
  by code_simp+

text \<open>
  Claim C3, as the code has it. With \<open>T\<close> the upper-cased type name, the first
  matching case decides: a column with \<open>pk = 1\<close> and \<open>T = INTEGER\<close> yields no
  value; a \<open>T\<close> containing \<open>DATETIME\<close> or \<open>TIMESTAMP\<close> yields the ISO rendering of
  a date; \<open>T = DATE\<close> yields its date part and \<open>T = TIME\<close> the time part of its time
  rendering; a \<open>T\<close> containing \<open>INT\<close> yields an integer from 1 to 1000; one containing
  \<open>REAL\<close>, \<open>FLOAT\<close> or \<open>DOUBLE\<close> a number from 0 to 100; one containing \<open>BOOL\<close>
  yields 0 or 1; one containing \<open>NUMERIC\<close> or \<open>DECIMAL\<close> a number from 0 to 1000;
  one containing \<open>BLOB\<close> yields \<open>null\<close>; and every other type whose column name
  matches no date/time pattern yields the random words. The result depends on the
  column only through \<open>T\<close>, through whether \<open>pk\<close> is 1 and through the column name.
  The ranges are those of the Faker generators called.
\<close>

theorem generateValueForColumn_dispatch:
  fixes column :: D1Column
  assumes T: "T = toUpperCase (col_type column)"
    and r: "r = generateValueForColumn faker column"
    and rng: "faker_in_range faker"
  shows
    "(pk column = 1 \<and> T = ''INTEGER'' \<longrightarrow> r = None)
     \<and> (str_includes T ''DATETIME'' \<or> str_includes T ''TIMESTAMP'' \<longrightarrow>
          r = Some (Text (toISOString (date_past faker))))
     \<and> (T = ''DATE'' \<longrightarrow> r = Some (Text (hd (split (toISOString (date_past faker)) CHR ''T''))))
     \<and> (T = ''TIME'' \<longrightarrow> r = Some (Text (hd (split (toTimeString (date_past faker)) CHR '' ''))))
     \<and> (str_includes T ''INT'' \<and> \<not> (pk column = 1 \<and> T = ''INTEGER'')
          \<and> \<not> str_includes T ''DATETIME'' \<and> \<not> str_includes T ''TIMESTAMP'' \<longrightarrow>
          (\<exists>n. r = Some (Number (of_int n)) \<and> 1 \<le> n \<and> n \<le> 1000))
     \<and> ((str_includes T ''REAL'' \<or> str_includes T ''FLOAT'' \<or> str_includes T ''DOUBLE'')
          \<and> \<not> str_includes T ''INT''
          \<and> \<not> str_includes T ''DATETIME'' \<and> \<not> str_includes T ''TIMESTAMP'' \<longrightarrow>
          (\<exists>x. r = Some (Number x) \<and> 0 \<le> x \<and> x \<le> 100))
     \<and> (str_includes T ''BOOL''
          \<and> \<not> (str_includes T ''REAL'' \<or> str_includes T ''FLOAT'' \<or> str_includes T ''DOUBLE'')
          \<and> \<not> str_includes T ''INT''
          \<and> \<not> str_includes T ''DATETIME'' \<and> \<not> str_includes T ''TIMESTAMP'' \<longrightarrow>
          r = Some (Number 0) \<or> r = Some (Number 1))
     \<and> ((str_includes T ''NUMERIC'' \<or> str_includes T ''DECIMAL'')
          \<and> \<not> str_includes T ''BOOL''
          \<and> \<not> (str_includes T ''REAL'' \<or> str_includes T ''FLOAT'' \<or> str_includes T ''DOUBLE'')
          \<and> \<not> str_includes T ''INT''
          \<and> \<not> str_includes T ''DATETIME'' \<and> \<not> str_includes T ''TIMESTAMP'' \<longrightarrow>
          (\<exists>x. r = Some (Number x) \<and> 0 \<le> x \<and> x \<le> 1000))
     \<and> (str_includes T ''BLOB''
          \<and> \<not> (str_includes T ''NUMERIC'' \<or> str_includes T ''DECIMAL'')
          \<and> \<not> str_includes T ''BOOL''
          \<and> \<not> (str_includes T ''REAL'' \<or> str_includes T ''FLOAT'' \<or> str_includes T ''DOUBLE'')
          \<and> \<not> str_includes T ''INT''
          \<and> \<not> str_includes T ''DATETIME'' \<and> \<not> str_includes T ''TIMESTAMP'' \<longrightarrow>
          r = Some Null)
     \<and> (\<not> str_includes T ''BLOB''
          \<and> \<not> (str_includes T ''NUMERIC'' \<or> str_includes T ''DECIMAL'')
          \<and> \<not> str_includes T ''BOOL''
          \<and> \<not> (str_includes T ''REAL'' \<or> str_includes T ''FLOAT'' \<or> str_includes T ''DOUBLE'')
          \<and> \<not> str_includes T ''INT''
          \<and> \<not> str_includes T ''DATETIME'' \<and> \<not> str_includes T ''TIMESTAMP''
          \<and> T \<noteq> ''DATE'' \<and> T \<noteq> ''TIME''
          \<and> matchesDateTimePattern (col_name column) = None \<longrightarrow>
          r = Some (Text (lorem_words faker 2 5)))
     \<and> (\<forall>column'. toUpperCase (col_type column') = T \<and> (pk column' = 1 \<longleftrightarrow> pk column = 1)
          \<and> col_name column' = col_name column \<longrightarrow>
          generateValueForColumn faker column' = r)"
proof -
  have i1: "1 \<le> number_int faker 1 1000 \<and> number_int faker 1 1000 \<le> 1000"
    using rng by (simp add: faker_in_range_def)
  have f1: "0 \<le> number_float faker 0 100 2 \<and> number_float faker 0 100 2 \<le> 100"
    using rng by (simp add: faker_in_range_def)
  have f2: "0 \<le> number_float faker 0 1000 2 \<and> number_float faker 0 1000 2 \<le> 1000"
    using rng by (simp add: faker_in_range_def)
  have same: "generateValueForColumn faker column' = r"
    if "toUpperCase (col_type column') = T" "pk column' = 1 \<longleftrightarrow> pk column = 1"
      "col_name column' = col_name column" for column'
    unfolding r generateValueForColumn_def T [symmetric] that(1) that(3) Let_def
    using that(2) by (simp del: str_includes.simps)
  have "(pk column = 1 \<and> T = ''INTEGER'' \<longrightarrow> r = None)
     \<and> (str_includes T ''DATETIME'' \<or> str_includes T ''TIMESTAMP'' \<longrightarrow>
          r = Some (Text (toISOString (date_past faker))))
     \<and> (T = ''DATE'' \<longrightarrow> r = Some (Text (hd (split (toISOString (date_past faker)) CHR ''T''))))
     \<and> (T = ''TIME'' \<longrightarrow> r = Some (Text (hd (split (toTimeString (date_past faker)) CHR '' ''))))
     \<and> (str_includes T ''INT'' \<and> \<not> (pk column = 1 \<and> T = ''INTEGER'')
          \<and> \<not> str_includes T ''DATETIME'' \<and> \<not> str_includes T ''TIMESTAMP'' \<longrightarrow>
          (\<exists>n. r = Some (Number (of_int n)) \<and> 1 \<le> n \<and> n \<le> 1000))
     \<and> ((str_includes T ''REAL'' \<or> str_includes T ''FLOAT'' \<or> str_includes T ''DOUBLE'')
          \<and> \<not> str_includes T ''INT''
          \<and> \<not> str_includes T ''DATETIME'' \<and> \<not> str_includes T ''TIMESTAMP'' \<longrightarrow>
          (\<exists>x. r = Some (Number x) \<and> 0 \<le> x \<and> x \<le> 100))
     \<and> (str_includes T ''BOOL''
          \<and> \<not> (str_includes T ''REAL'' \<or> str_includes T ''FLOAT'' \<or> str_includes T ''DOUBLE'')
          \<and> \<not> str_includes T ''INT''
          \<and> \<not> str_includes T ''DATETIME'' \<and> \<not> str_includes T ''TIMESTAMP'' \<longrightarrow>
          r = Some (Number 0) \<or> r = Some (Number 1))
     \<and> ((str_includes T ''NUMERIC'' \<or> str_includes T ''DECIMAL'')
          \<and> \<not> str_includes T ''BOOL''
          \<and> \<not> (str_includes T ''REAL'' \<or> str_includes T ''FLOAT'' \<or> str_includes T ''DOUBLE'')
          \<and> \<not> str_includes T ''INT''
          \<and> \<not> str_includes T ''DATETIME'' \<and> \<not> str_includes T ''TIMESTAMP'' \<longrightarrow>
          (\<exists>x. r = Some (Number x) \<and> 0 \<le> x \<and> x \<le> 1000))
     \<and> (str_includes T ''BLOB''
          \<and> \<not> (str_includes T ''NUMERIC'' \<or> str_includes T ''DECIMAL'')
          \<and> \<not> str_includes T ''BOOL''
          \<and> \<not> (str_includes T ''REAL'' \<or> str_includes T ''FLOAT'' \<or> str_includes T ''DOUBLE'')
          \<and> \<not> str_includes T ''INT''
          \<and> \<not> str_includes T ''DATETIME'' \<and> \<not> str_includes T ''TIMESTAMP'' \<longrightarrow>
          r = Some Null)
     \<and> (\<not> str_includes T ''BLOB''
          \<and> \<not> (str_includes T ''NUMERIC'' \<or> str_includes T ''DECIMAL'')
          \<and> \<not> str_includes T ''BOOL''
          \<and> \<not> (str_includes T ''REAL'' \<or> str_includes T ''FLOAT'' \<or> str_includes T ''DOUBLE'')
          \<and> \<not> str_includes T ''INT''
          \<and> \<not> str_includes T ''DATETIME'' \<and> \<not> str_includes T ''TIMESTAMP''
          \<and> T \<noteq> ''DATE'' \<and> T \<noteq> ''TIME''
          \<and> matchesDateTimePattern (col_name column) = None \<longrightarrow>
          r = Some (Text (lorem_words faker 2 5)))"
    unfolding r generateValueForColumn_def T [symmetric] Let_def
    using i1 f1 f2 by (simp del: str_includes.simps add: type_name_facts)
  then show ?thesis
    using same by simp
qed

lemma example_faker_in_range: "faker_in_range example_faker"
  by (simp add: faker_in_range_def example_faker_def)

lemma ex_upper:
  "toUpperCase ''bigint'' = ''BIGINT''"
  "toUpperCase ''integer'' = ''INTEGER''"
  "toUpperCase ''varchar(255)'' = ''VARCHAR(255)''"
  "toUpperCase ''NUMERIC'' = ''NUMERIC''"
  by code_simp+

lemma ex_names:
  "matchesDateTimePattern ''title'' = None"
  "matchesDateTimePattern ''price'' = None"
  by code_simp+

lemma ex_includes:
  "str_includes ''BIGINT'' ''INT''"
  "\<not> str_includes ''BIGINT'' ''DATETIME''"
  "\<not> str_includes ''BIGINT'' ''TIMESTAMP''"
  "\<not> str_includes ''VARCHAR(255)'' ''DATETIME''"
  "\<not> str_includes ''VARCHAR(255)'' ''TIMESTAMP''"
  "\<not> str_includes ''VARCHAR(255)'' ''INT''"
  "\<not> str_includes ''VARCHAR(255)'' ''REAL''"
  "\<not> str_includes ''VARCHAR(255)'' ''FLOAT''"
  "\<not> str_includes ''VARCHAR(255)'' ''DOUBLE''"
  "\<not> str_includes ''VARCHAR(255)'' ''BOOL''"
  "\<not> str_includes ''VARCHAR(255)'' ''NUMERIC''"
  "\<not> str_includes ''VARCHAR(255)'' ''DECIMAL''"
  "\<not> str_includes ''VARCHAR(255)'' ''BLOB''"
  "\<not> str_includes ''NUMERIC'' ''DATETIME''"
  "\<not> str_includes ''NUMERIC'' ''TIMESTAMP''"
  "\<not> str_includes ''NUMERIC'' ''INT''"
  "\<not> str_includes ''NUMERIC'' ''REAL''"
  "\<not> str_includes ''NUMERIC'' ''FLOAT''"
  "\<not> str_includes ''NUMERIC'' ''DOUBLE''"
  "\<not> str_includes ''NUMERIC'' ''BOOL''"
  "\<not> str_includes ''NUMERIC'' ''BLOB''"
  "str_includes ''NUMERIC'' ''NUMERIC''"
  by code_simp+

theorem generateValueForColumn_dispatch_witness:
  "generateValueForColumn example_faker \<lparr>col_name = ''id'', col_type = ''integer'', pk = 1\<rparr> = None
   \<and> (\<exists>n. generateValueForColumn example_faker \<lparr>col_name = ''views'', col_type = ''bigint'', pk = 0\<rparr>
            = Some (Number (of_int n)) \<and> 1 \<le> n \<and> n \<le> 1000)
   \<and> generateValueForColumn example_faker \<lparr>col_name = ''title'', col_type = ''varchar(255)'', pk = 0\<rparr>
        = Some (Text (lorem_words example_faker 2 5))"
proof -
  note d = generateValueForColumn_dispatch [OF refl refl example_faker_in_range]
  have a: "generateValueForColumn example_faker \<lparr>col_name = ''id'', col_type = ''integer'', pk = 1\<rparr> = None"
    using d [where column = "\<lparr>col_name = ''id'', col_type = ''integer'', pk = 1\<rparr>", THEN conjunct1]
    by (simp del: str_includes.simps add: ex_upper)
  have b: "\<exists>n. generateValueForColumn example_faker \<lparr>col_name = ''views'', col_type = ''bigint'', pk = 0\<rparr>
            = Some (Number (of_int n)) \<and> 1 \<le> n \<and> n \<le> 1000"
    using d [where column = "\<lparr>col_name = ''views'', col_type = ''bigint'', pk = 0\<rparr>",
        THEN conjunct2, THEN conjunct2, THEN conjunct2, THEN conjunct2, THEN conjunct1]
    by (simp del: str_includes.simps add: ex_upper ex_includes)
  have c: "generateValueForColumn example_faker \<lparr>col_name = ''title'', col_type = ''varchar(255)'', pk = 0\<rparr>
        = Some (Text (lorem_words example_faker 2 5))"
    using d [where column = "\<lparr>col_name = ''title'', col_type = ''varchar(255)'', pk = 0\<rparr>",
        THEN conjunct2, THEN conjunct2, THEN conjunct2, THEN conjunct2, THEN conjunct2,
        THEN conjunct2, THEN conjunct2, THEN conjunct2, THEN conjunct2, THEN conjunct1]
    by (simp del: str_includes.simps add: ex_upper ex_includes ex_names)
  show ?thesis
    using a b c by blast
qed

text \<open>
  The claim as written fails for the types it does not list: a \<open>NUMERIC\<close> column named
  \<open>price\<close> is none of the listed cases and its name matches no pattern, yet the value
  is a number, not random words.
\<close>

theorem remaining_type_counterexample:
  "\<not> (pk \<lparr>col_name = ''price'', col_type = ''NUMERIC'', pk = 0\<rparr> = 1
        \<and> toUpperCase ''NUMERIC'' = ''INTEGER'')
   \<and> \<not> str_includes (toUpperCase ''NUMERIC'') ''DATETIME''
   \<and> \<not> str_includes (toUpperCase ''NUMERIC'') ''TIMESTAMP''
   \<and> \<not> str_includes (toUpperCase ''NUMERIC'') ''INT''
   \<and> \<not> str_includes (toUpperCase ''NUMERIC'') ''REAL''
   \<and> \<not> str_includes (toUpperCase ''NUMERIC'') ''FLOAT''
   \<and> \<not> str_includes (toUpperCase ''NUMERIC'') ''DOUBLE''
   \<and> \<not> str_includes (toUpperCase ''NUMERIC'') ''BOOL''
   \<and> \<not> str_includes (toUpperCase ''NUMERIC'') ''BLOB''
   \<and> matchesDateTimePattern ''price'' = None
   \<and> generateValueForColumn example_faker \<lparr>col_name = ''price'', col_type = ''NUMERIC'', pk = 0\<rparr>
        = Some (Number 12.5)
   \<and> generateValueForColumn example_faker \<lparr>col_name = ''price'', col_type = ''NUMERIC'', pk = 0\<rparr>
        \<noteq> Some (Text (lorem_words example_faker 2 5))"
  by (simp del: str_includes.simps add: generateValueForColumn_def ex_upper ex_includes ex_names example_faker_def)









text \<open>
  A name inherited from \<open>Object.prototype\<close> also passes the length test, although the
  map supplies nothing for it: for a column called \<open>constructor\<close> the test reads the
  \<open>length\<close> 1 of the function \<open>Object\<close>, the type-based generation is skipped and
  the column gets the value \<open>undefined\<close>.
\<close>

lemma constructor_column_value:
  "generateValueForColumn example_faker
      \<lparr>col_name = ''constructor'', col_type = ''TEXT'', pk = 0\<rparr>
     = Some (Text ''lorem ipsum dolor'')"
  by code_simp

lemma inherited_name_example:
  "generateDummyRow example_chance
      \<lparr>columns = [\<lparr>col_name = ''constructor'', col_type = ''TEXT'', pk = 0\<rparr>]\<rparr> (Some [])
     = \<lparr>own_properties = [(''constructor'', None)], has_prototype = True\<rparr>
   \<and> generateDummyRow example_chance
      \<lparr>columns = [\<lparr>col_name = ''constructor'', col_type = ''TEXT'', pk = 0\<rparr>]\<rparr> None
     = \<lparr>own_properties = [(''constructor'', Some (Text ''lorem ipsum dolor''))],
        has_prototype = True\<rparr>"
  by (simp del: str_includes.simps add: generateDummyRow_def example_chance_def
      foreignKeyValues_get_def Object_get_def Object_prototype_methods_def
      Row_set_def Row_own_def Row_empty_def constructor_column_value)

section \<open>Properties of the file tree: the two copies of the builder\<close>

lemma demo_insert_object_eq: "demo_insert_object sz pre rest level = insert_object sz pre rest level"
  by (induction rest arbitrary: pre level) (simp_all add: Let_def split: option.splits)

lemma demo_insert_folder_eq: "demo_insert_folder pre rest level = insert_folder pre rest level"
  by (induction rest arbitrary: pre level) (simp_all add: Let_def split: option.splits)

lemma demo_compareNodes_eq: "demo_compareNodes = compareNodes"
  by (intro ext) (simp add: demo_compareNodes_def compareNodes_def)

lemma demo_sortNodes_eq: "demo_sortNodes lc nodes = sortNodes lc nodes"
proof (induction lc nodes rule: sortNodes.induct)
  case (1 lc nodes)
  have "(case children node of
           Some ch \<Rightarrow> with_children node (demo_sortNodes lc ch) | None \<Rightarrow> node)
        = (case children node of
             Some ch \<Rightarrow> with_children node (sortNodes lc ch) | None \<Rightarrow> node)"
    if "node \<in> set (Array_sort (compareNodes lc) nodes)" for node
    using "1.IH" [OF that] by (simp split: option.splits)
  then show ?case
    by (subst demo_sortNodes.simps, subst sortNodes.simps)
      (simp add: demo_compareNodes_eq cong: map_cong)
qed

text \<open>
  Claim C8. The builder of the dashboard package and the builder of the demo app return
  equal trees for every object list and every \<open>hideKeepFiles\<close> flag (and every
  collation of the host).
\<close>

theorem demo_buildFileTree_eq:
  "demo_buildFileTree localeCompare objects hideKeepFiles
     = buildFileTree localeCompare objects hideKeepFiles"
proof -
  have "demo_sortNodes localeCompare = sortNodes localeCompare"
    by (intro ext) (rule demo_sortNodes_eq)
  then show ?thesis
    unfolding demo_buildFileTree_def buildFileTree_def
    by (simp only: demo_insert_object_eq demo_insert_folder_eq)
qed

section \<open>Properties of the file tree: what the builder reads of the objects\<close>

lemma foldl_filter_pairs:
  fixes objs :: "'a R2ObjectItem_scheme list"
  shows "foldl (\<lambda>r obj. f (key obj) (size_bytes obj) r) r0 (filter (\<lambda>obj. P (key obj)) objs)
     = foldl (\<lambda>r (k, s). f k s r) r0
         (filter (\<lambda>(k, s). P k) (zip (map key objs) (map size_bytes objs)))"
  by (induction objs arbitrary: r0) simp_all

lemma foldl_if_pairs:
  fixes objs :: "'a R2ObjectItem_scheme list"
  shows "foldl (\<lambda>r obj. if P (key obj) then g (key obj) r else r) r0 objs
     = foldl (\<lambda>r (k, s). if P k then g k r else r) r0
         (zip (map key objs) (map size_bytes objs))"
  by (induction objs arbitrary: r0) simp_all

lemma foldl_pairs:
  fixes objs :: "'a R2ObjectItem_scheme list"
  shows "foldl (\<lambda>r obj. f (key obj) (size_bytes obj) r) r0 objs
     = foldl (\<lambda>r (k, s). f k s r) r0 (zip (map key objs) (map size_bytes objs))"
  by (induction objs arbitrary: r0) simp_all

lemma buildFileTree_pairs:
  fixes objects :: "'a R2ObjectItem_scheme list"
  shows "buildFileTree lc objects h =
     sortNodes lc
       (if h
        then foldl (\<lambda>r (k, s). if endsWith k ''/.keep''
                      then insert_folder [] (split (replace_first k ''/.keep'') CHR ''/'') r else r)
               (foldl (\<lambda>r (k, s). insert_object s [] (split k CHR ''/'') r) []
                  (filter (\<lambda>(k, s). \<not> endsWith k ''/.keep'' \<and> k \<noteq> ''.keep'')
                     (zip (map key objects) (map size_bytes objects))))
               (zip (map key objects) (map size_bytes objects))
        else foldl (\<lambda>r (k, s). insert_object s [] (split k CHR ''/'') r) []
               (zip (map key objects) (map size_bytes objects)))"
proof (cases h)
  case True
  show ?thesis
    unfolding buildFileTree_def Let_def
    using foldl_filter_pairs [of "\<lambda>k s r. insert_object s [] (split k CHR ''/'') r" "[]"
        "\<lambda>k. \<not> endsWith k ''/.keep'' \<and> k \<noteq> ''.keep''" objects]
      foldl_if_pairs [of "\<lambda>k. endsWith k ''/.keep''"
        "\<lambda>k r. insert_folder [] (split (replace_first k ''/.keep'') CHR ''/'') r" _ objects]
    by (simp add: True)
next
  case False
  show ?thesis
    unfolding buildFileTree_def Let_def
    using foldl_pairs [of "\<lambda>k s r. insert_object s [] (split k CHR ''/'') r" "[]" objects]
    by (simp add: False)
qed

section \<open>Properties of the file tree: order of the siblings\<close>

lemma insert_sorted_sorted:
  assumes total: "\<And>a b. c a b \<le> 0 \<or> c b a \<le> 0"
    and trans: "\<And>a b d. c a b \<le> 0 \<Longrightarrow> c b d \<le> 0 \<Longrightarrow> c a d \<le> 0"
  shows "sorted_wrt (\<lambda>a b. c a b \<le> 0) ys \<Longrightarrow> sorted_wrt (\<lambda>a b. c a b \<le> (0::int)) (insert_sorted c x ys)"
proof (induction ys)
  case Nil
  show ?case by simp
next
  case (Cons y ys)
  show ?case
  proof (cases "c x y \<le> 0")
    case True
    then have "\<forall>z\<in>set ys. c x z \<le> 0"
      using Cons.prems trans by auto
    then show ?thesis
      using True Cons.prems by simp
  next
    case False
    then have "c y x \<le> 0"
      using total by blast
    then show ?thesis
      using False Cons by (auto simp: set_insert_sorted)
  qed
qed

lemma Array_sort_sorted:
  assumes total: "\<And>a b. c a b \<le> 0 \<or> c b a \<le> 0"
    and trans: "\<And>a b d. c a b \<le> 0 \<Longrightarrow> c b d \<le> 0 \<Longrightarrow> c a d \<le> 0"
  shows "sorted_wrt (\<lambda>a b. c a b \<le> (0::int)) (Array_sort c xs)"
proof (induction xs)
  case Nil
  show ?case by (simp add: Array_sort_def)
next
  case (Cons x xs)
  have "Array_sort c (x # xs) = insert_sorted c x (Array_sort c xs)"
    by (simp add: Array_sort_def)
  then show ?case
    using insert_sorted_sorted [OF total trans Cons.IH] by simp
qed

lemma compareNodes_folders_first:
  "compareNodes lc a b \<le> 0 \<longleftrightarrow> folders_first lc a b"
  by (cases "type a"; cases "type b") (simp_all add: compareNodes_def folders_first_def)

lemma folders_first_total:
  assumes "consistent lc"
  shows "folders_first lc a b \<or> folders_first lc b a"
proof -
  have "lc (name a) (name b) \<le> 0 \<or> lc (name b) (name a) \<le> 0"
    using assms unfolding consistent_def by blast
  moreover have "type a = type b \<or> (type a = Folder \<and> type b = File) \<or> (type a = File \<and> type b = Folder)"
    by (cases "type a"; cases "type b") simp_all
  ultimately show ?thesis
    unfolding folders_first_def by metis
qed

lemma folders_first_trans:
  assumes "consistent lc" and "folders_first lc a b" and "folders_first lc b d"
  shows "folders_first lc a d"
proof -
  have trans: "lc (name a) (name b) \<le> 0 \<Longrightarrow> lc (name b) (name d) \<le> 0 \<Longrightarrow> lc (name a) (name d) \<le> 0"
    using assms(1) unfolding consistent_def by blast
  have "File \<noteq> Folder"
    by simp
  then show ?thesis
    using assms(2,3) trans unfolding folders_first_def by metis
qed
lemma folders_first_with_children [simp]:
  "folders_first lc (with_children a ch) b = folders_first lc a b"
  "folders_first lc a (with_children b ch) = folders_first lc a b"
  by (simp_all add: folders_first_def with_children_def)

lemma sortNodes_levels_sorted:
  "consistent lc \<Longrightarrow> levels_sorted (folders_first lc) (sortNodes lc nodes)"
proof (induction lc nodes rule: sortNodes.induct)
  case (1 lc nodes)
  note c = \<open>consistent lc\<close>
  let ?f = "\<lambda>node. case children node of
                Some ch \<Rightarrow> with_children node (sortNodes lc ch) | None \<Rightarrow> node"
  have ff: "folders_first lc (?f a) (?f b) = folders_first lc a b" for a b
    by (simp split: option.splits)
  have "sorted_wrt (\<lambda>a b. compareNodes lc a b \<le> 0) (Array_sort (compareNodes lc) nodes)"
  proof (rule Array_sort_sorted)
    show "compareNodes lc a b \<le> 0 \<or> compareNodes lc b a \<le> 0" for a b
      using folders_first_total [OF c] by (simp add: compareNodes_folders_first)
    show "compareNodes lc a b \<le> 0 \<Longrightarrow> compareNodes lc b d \<le> 0 \<Longrightarrow> compareNodes lc a d \<le> 0"
      for a b d
      using folders_first_trans [OF c] by (simp add: compareNodes_folders_first)
  qed
  then have top: "sorted_wrt (folders_first lc) (map ?f (Array_sort (compareNodes lc) nodes))"
    by (simp add: sorted_wrt_map ff compareNodes_folders_first)
  have sub: "case children (?f node) of None \<Rightarrow> True | Some ch \<Rightarrow> levels_sorted (folders_first lc) ch"
    if "node \<in> set (Array_sort (compareNodes lc) nodes)" for node
    using "1.IH" [OF that _ c] by (simp add: with_children_def split: option.splits)
  show ?case
    apply (subst sortNodes.simps)
    apply (subst levels_sorted.simps)
    using top sub by auto
qed

lemma compareChars_total: "compareChars a b \<le> 0 \<or> compareChars b a \<le> 0"
  by (induction a b rule: compareChars.induct) auto

lemma compareChars_trans:
  "compareChars a b \<le> 0 \<Longrightarrow> compareChars b c \<le> 0 \<Longrightarrow> compareChars a c \<le> 0"
proof (induction a arbitrary: b c)
  case Nil
  then show ?case by (cases c) simp_all
next
  case (Cons x a)
  obtain y b' where b: "b = y # b'"
    using Cons.prems(1) by (cases b) simp_all
  obtain z c' where c: "c = z # c'"
    using Cons.prems(2) b by (cases c) simp_all
  show ?case
    using Cons.prems Cons.IH [of b' c']
    by (auto simp: b c split: if_splits)
qed

lemma compareChars_consistent: "consistent compareChars"
  unfolding consistent_def using compareChars_total compareChars_trans by blast

text \<open>
  Claim C2, as the code has it. In the tree returned by \<open>buildFileTree\<close> every sibling
  list at every level has its folders before its files, and the folders among
  themselves and the files among themselves are in the order of \<open>localeCompare\<close> on
  their names. (\<open>localeCompare\<close> is taken to be a total preorder.)
\<close>

theorem siblings_sorted:
  fixes objects :: "'a R2ObjectItem_scheme list"
  assumes "consistent localeCompare"
  shows "levels_sorted (folders_first localeCompare)
           (buildFileTree localeCompare objects hideKeepFiles)"
  unfolding buildFileTree_def Let_def
  by (rule sortNodes_levels_sorted [OF assms])

theorem siblings_sorted_witness:
  "levels_sorted (folders_first compareChars)
     (buildFileTree compareChars
        [\<lparr>key = ''z/x'', size_bytes = 1\<rparr>, \<lparr>key = ''a'', size_bytes = 2\<rparr>] True)"
  using siblings_sorted [OF compareChars_consistent] .

lemma example_tree:
  "buildFileTree compareChars
     [\<lparr>key = ''z/x'', size_bytes = 1\<rparr>, \<lparr>key = ''a'', size_bytes = 2\<rparr>] True
   = [TreeNode ''z'' ''z'' Folder None (Some [TreeNode ''x'' ''z/x'' File (Some 1) None]),
      TreeNode ''a'' ''a'' File (Some 2) None]"
  by code_simp

text \<open>
  Ordered by name alone the siblings are not: a folder \<open>z\<close> comes before a file \<open>a\<close>.
\<close>

theorem siblings_by_name_counterexample:
  "\<not> levels_sorted (by_name compareChars)
       (buildFileTree compareChars
          [\<lparr>key = ''z/x'', size_bytes = 1\<rparr>, \<lparr>key = ''a'', size_bytes = 2\<rparr>] True)"
  unfolding example_tree
  by (subst levels_sorted.simps) (simp add: by_name_def)

section \<open>Properties of the file tree: the trie of the keys\<close>

subsection \<open>Sibling lists\<close>

lemma with_children_sel [simp]:
  "name (with_children n ch) = name n"
  "path (with_children n ch) = path n"
  "type (with_children n ch) = type n"
  "size_opt (with_children n ch) = size_opt n"
  "children (with_children n ch) = Some ch"
  by (simp_all add: with_children_def)

lemma find_name_None: "find_name s nodes = None \<longleftrightarrow> s \<notin> name ` set nodes"
  by (induction nodes) auto

lemma find_name_Some: "find_name s nodes = Some n \<Longrightarrow> n \<in> set nodes \<and> name n = s"
  by (induction nodes) (auto split: if_splits)

lemma find_name_distinct:
  "distinct (map name nodes) \<Longrightarrow> n \<in> set nodes \<Longrightarrow> find_name (name n) nodes = Some n"
  by (induction nodes) (auto simp: rev_image_eqI)

lemma find_name_append:
  "find_name s (nodes @ [n]) =
     (case find_name s nodes of Some m \<Rightarrow> Some m | None \<Rightarrow> if name n = s then Some n else None)"
  by (induction nodes) auto

lemma find_name_set_children:
  "find_name s (set_children part ch nodes) =
     (if s = part then map_option (\<lambda>n. with_children n ch) (find_name part nodes)
      else find_name s nodes)"
  by (induction nodes) auto

lemma map_name_set_children [simp]: "map name (set_children part ch nodes) = map name nodes"
  by (induction nodes) auto

lemma set_set_children:
  "find_name part nodes = Some existing \<Longrightarrow>
     set (set_children part ch nodes) \<subseteq> insert (with_children existing ch) (set nodes)"
  by (induction nodes) (auto split: if_splits)

lemma lookup_Cons:
  "lookup nodes (s # a) =
     (case find_name s nodes of
        None \<Rightarrow> None
      | Some n \<Rightarrow> if a = [] then Some n
                  else (case children n of None \<Rightarrow> None | Some ch \<Rightarrow> lookup ch a))"
  by (cases a) (simp_all split: option.splits)

lemma lookup_Nil_nodes [simp]: "lookup [] a = None"
  by (cases a) (simp_all add: lookup_Cons)

subsection \<open>Well-formed trees\<close>

lemma well_formed_Nil [simp]: "well_formed []"
  by (simp add: well_formed.simps)

lemma well_formed_children:
  "well_formed nodes \<Longrightarrow> n \<in> set nodes \<Longrightarrow> children n = Some ch \<Longrightarrow> well_formed ch"
  by (subst (asm) well_formed.simps) (auto split: option.splits)

lemma well_formed_type:
  "well_formed nodes \<Longrightarrow> n \<in> set nodes \<Longrightarrow> (type n = File \<longleftrightarrow> children n = None)"
  by (subst (asm) well_formed.simps) (auto split: option.splits dest!: bspec)

lemma well_formed_distinct: "well_formed nodes \<Longrightarrow> distinct (map name nodes)"
  by (subst (asm) well_formed.simps) simp

lemma well_formedI:
  assumes "distinct (map name nodes)"
    and "\<And>n. n \<in> set nodes \<Longrightarrow> children n = None \<Longrightarrow> type n = File"
    and "\<And>n ch. n \<in> set nodes \<Longrightarrow> children n = Some ch \<Longrightarrow> type n = Folder \<and> well_formed ch"
  shows "well_formed nodes"
  using assms by (subst well_formed.simps) (auto split: option.splits)

lemma well_formed_append:
  assumes "well_formed nodes" and "name n \<notin> name ` set nodes"
    and "children n = None \<Longrightarrow> type n = File"
    and "\<And>ch. children n = Some ch \<Longrightarrow> type n = Folder \<and> well_formed ch"
  shows "well_formed (nodes @ [n])"
proof (rule well_formedI)
  show "distinct (map name (nodes @ [n]))"
    using well_formed_distinct [OF assms(1)] assms(2) by simp
next
  fix m assume "m \<in> set (nodes @ [n])" "children m = None"
  then show "type m = File"
    using assms(3) well_formed_type [OF assms(1)] by auto
next
  fix m ch assume "m \<in> set (nodes @ [n])" "children m = Some ch"
  then show "type m = Folder \<and> well_formed ch"
    using assms(4) well_formed_type [OF assms(1), of m] well_formed_children [OF assms(1), of m ch]
    by (cases "type m") auto
qed

lemma well_formed_set_children:
  assumes "well_formed nodes" and "find_name part nodes = Some existing"
    and "children existing \<noteq> None" and "well_formed ch"
  shows "well_formed (set_children part ch nodes)"
proof (rule well_formedI)
  show "distinct (map name (set_children part ch nodes))"
    using well_formed_distinct [OF assms(1)] by simp
next
  have ex: "existing \<in> set nodes"
    using find_name_Some [OF assms(2)] by simp
  have folder: "type existing = Folder"
    using well_formed_type [OF assms(1) ex] assms(3) by (cases "type existing") auto
  have sub: "m \<in> set nodes \<or> m = with_children existing ch"
    if "m \<in> set (set_children part ch nodes)" for m
    using set_set_children [OF assms(2), of ch] that by auto
  {
    fix m assume "m \<in> set (set_children part ch nodes)" "children m = None"
    then show "type m = File"
      using sub [of m] well_formed_type [OF assms(1), of m] by auto
  next
    fix m c assume "m \<in> set (set_children part ch nodes)" "children m = Some c"
    then show "type m = Folder \<and> well_formed c"
      using sub [of m] folder assms(4) well_formed_type [OF assms(1), of m]
        well_formed_children [OF assms(1), of m c]
      by (cases "type m") auto
  }
qed

lemma well_formed_insert_object:
  "well_formed nodes \<Longrightarrow> well_formed (insert_object sz pre rest nodes)"
proof (induction rest arbitrary: pre nodes)
  case Nil
  then show ?case by simp
next
  case (Cons part rest)
  show ?case
  proof (cases "part = []")
    case True
    then show ?thesis using Cons by simp
  next
    case False
    show ?thesis
    proof (cases "find_name part nodes")
      case None
      have "well_formed (nodes @ [TreeNode part (join (pre @ [part]) ''/'')
              (if rest = [] then File else Folder) (if rest = [] then Some sz else None)
              (if rest = [] then None else Some (insert_object sz (pre @ [part]) rest []))])"
        using Cons.prems None Cons.IH [of "[]"]
        by (intro well_formed_append) (auto simp: find_name_None)
      then show ?thesis
        using False None by (simp add: Let_def)
    next
      case (Some existing)
      show ?thesis
      proof (cases "rest \<noteq> [] \<and> children existing \<noteq> None")
        case True
        then obtain ch where ch: "children existing = Some ch"
          by auto
        have "well_formed ch"
          using well_formed_children [OF Cons.prems _ ch] find_name_Some [OF Some] by simp
        then have "well_formed (insert_object sz (pre @ [part]) rest ch)"
          by (rule Cons.IH)
        then have "well_formed (set_children part (insert_object sz (pre @ [part]) rest ch) nodes)"
          using well_formed_set_children [OF Cons.prems Some] ch by simp
        then show ?thesis
          using False Some True ch by (simp add: Let_def)
      next
        case no: False
        then show ?thesis
          using False Some Cons.IH [OF Cons.prems] by (auto simp add: Let_def)
      qed
    qed
  qed
qed

lemma well_formed_insert_folder:
  "well_formed nodes \<Longrightarrow> well_formed (insert_folder pre rest nodes)"
proof (induction rest arbitrary: pre nodes)
  case Nil
  then show ?case by simp
next
  case (Cons part rest)
  show ?case
  proof (cases "part = []")
    case True
    then show ?thesis using Cons by simp
  next
    case False
    show ?thesis
    proof (cases "find_name part nodes")
      case None
      have "well_formed (nodes @ [TreeNode part (join (pre @ [part]) ''/'') Folder None
              (Some (insert_folder (pre @ [part]) rest []))])"
        using Cons.prems None Cons.IH [of "[]"]
        by (intro well_formed_append) (auto simp: find_name_None)
      then show ?thesis
        using False None by (simp add: Let_def)
    next
      case (Some existing)
      show ?thesis
      proof (cases "children existing")
        case None
        then show ?thesis
          using False Some Cons.IH [OF Cons.prems] by (simp add: Let_def)
      next
        case ch: (Some ch)
        have "well_formed ch"
          using well_formed_children [OF Cons.prems _ ch] find_name_Some [OF Some] by simp
        then have "well_formed (insert_folder (pre @ [part]) rest ch)"
          by (rule Cons.IH)
        then have "well_formed (set_children part (insert_folder (pre @ [part]) rest ch) nodes)"
          using well_formed_set_children [OF Cons.prems Some] ch by simp
        then show ?thesis
          using False Some ch by (simp add: Let_def)
      qed
    qed
  qed
qed

subsection \<open>Nodes are kept\<close>

lemma same_node_refl [simp]: "same_node n n"
  by (simp add: same_node_def)

lemma same_node_trans: "same_node a b \<Longrightarrow> same_node b c \<Longrightarrow> same_node a c"
  by (simp add: same_node_def)

lemma same_node_leaf: "same_node n n' \<Longrightarrow> children n = None \<Longrightarrow> n' = n"
  by (simp add: same_node_def TreeNode.expand)

lemma same_node_with_children [simp]: "children n \<noteq> None \<Longrightarrow> same_node n (with_children n ch)"
  by (simp add: same_node_def)

lemma lookup_append_kept:
  "lookup nodes a = Some n \<Longrightarrow> lookup (nodes @ [m]) a = Some n"
  by (cases a) (auto simp: lookup_Cons find_name_append split: option.splits)

lemma lookup_set_children_kept:
  assumes "find_name part nodes = Some existing" and "children existing = Some ch"
    and sub: "\<And>a n. lookup ch a = Some n \<Longrightarrow> \<exists>n'. lookup C a = Some n' \<and> same_node n n'"
    and "lookup nodes a = Some n"
  shows "\<exists>n'. lookup (set_children part C nodes) a = Some n' \<and> same_node n n'"
proof (cases a)
  case Nil
  then show ?thesis using assms(4) by simp
next
  case (Cons s a')
  show ?thesis
  proof (cases "s = part")
    case False
    then show ?thesis
      using assms(4) by (auto simp: Cons lookup_Cons find_name_set_children split: option.splits)
  next
    case True
    show ?thesis
    proof (cases "a' = []")
      case True
      then show ?thesis
        using assms(1,2,4) \<open>s = part\<close>
        by (auto simp: Cons lookup_Cons find_name_set_children)
    next
      case False
      then have "lookup ch a' = Some n"
        using assms(1,2,4) \<open>s = part\<close> by (simp add: Cons lookup_Cons)
      then show ?thesis
        using sub [of a' n] assms(1) False \<open>s = part\<close>
        by (simp add: Cons lookup_Cons find_name_set_children)
    qed
  qed
qed

lemma insert_object_kept:
  "lookup nodes a = Some n \<Longrightarrow>
     \<exists>n'. lookup (insert_object sz pre rest nodes) a = Some n' \<and> same_node n n'"
proof (induction rest arbitrary: pre nodes a n)
  case Nil
  then show ?case by simp
next
  case (Cons part rest)
  show ?case
  proof (cases "part = []")
    case True
    then show ?thesis using Cons by simp
  next
    case False
    show ?thesis
    proof (cases "find_name part nodes")
      case None
      then show ?thesis
        using False lookup_append_kept [OF Cons.prems] by (auto simp add: Let_def)
    next
      case (Some existing)
      show ?thesis
      proof (cases "rest \<noteq> [] \<and> children existing \<noteq> None")
        case True
        then obtain ch where ch: "children existing = Some ch"
          by auto
        have "\<exists>n'. lookup (set_children part (insert_object sz (pre @ [part]) rest ch) nodes) a
                = Some n' \<and> same_node n n'"
          using lookup_set_children_kept [OF Some ch _ Cons.prems] Cons.IH by blast
        then show ?thesis
          using False Some True ch by (simp add: Let_def)
      next
        case no: False
        then show ?thesis
          using False Some Cons.IH [OF Cons.prems] Cons.prems by (auto simp add: Let_def)
      qed
    qed
  qed
qed

lemma insert_folder_kept:
  "lookup nodes a = Some n \<Longrightarrow>
     \<exists>n'. lookup (insert_folder pre rest nodes) a = Some n' \<and> same_node n n'"
proof (induction rest arbitrary: pre nodes a n)
  case Nil
  then show ?case by simp
next
  case (Cons part rest)
  show ?case
  proof (cases "part = []")
    case True
    then show ?thesis using Cons by simp
  next
    case False
    show ?thesis
    proof (cases "find_name part nodes")
      case None
      then show ?thesis
        using False lookup_append_kept [OF Cons.prems] by (auto simp add: Let_def)
    next
      case (Some existing)
      show ?thesis
      proof (cases "children existing")
        case None
        then show ?thesis
          using False Some Cons.IH [OF Cons.prems] by (simp add: Let_def)
      next
        case ch: (Some ch)
        have "\<exists>n'. lookup (set_children part (insert_folder (pre @ [part]) rest ch) nodes) a
                = Some n' \<and> same_node n n'"
          using lookup_set_children_kept [OF Some ch _ Cons.prems] Cons.IH by blast
        then show ?thesis
          using False Some ch by (simp add: Let_def)
      qed
    qed
  qed
qed

subsection \<open>Sorting keeps the shape and the nodes\<close>

lemma map_insert_sorted:
  "set (map f (insert_sorted c x ys)) = insert (f x) (set (map f ys))"
  "distinct (map f (insert_sorted c x ys)) \<longleftrightarrow> f x \<notin> f ` set ys \<and> distinct (map f ys)"
  by (induction ys) auto

lemma distinct_map_Array_sort:
  "distinct (map f (Array_sort c xs)) \<longleftrightarrow> distinct (map f xs)"
proof (induction xs)
  case Nil
  show ?case by (simp add: Array_sort_def)
next
  case (Cons x xs)
  have "Array_sort c (x # xs) = insert_sorted c x (Array_sort c xs)"
    by (simp add: Array_sort_def)
  then show ?case
    using Cons by (simp add: map_insert_sorted set_Array_sort)
qed

lemma sortNodes_unfold:
  "sortNodes lc nodes = map (sorted_node lc) (Array_sort (compareNodes lc) nodes)"
  by (subst sortNodes.simps) (simp add: sorted_node_def [abs_def])

lemma sorted_node_sel [simp]:
  "name (sorted_node lc n) = name n"
  "type (sorted_node lc n) = type n"
  "children (sorted_node lc n) = map_option (sortNodes lc) (children n)"
  by (simp_all add: sorted_node_def split: option.splits)

lemma same_node_sorted_node [simp]: "same_node n (sorted_node lc n)"
  by (simp add: same_node_def sorted_node_def with_children_def split: option.splits)

lemma map_name_sortNodes:
  "map name (sortNodes lc nodes) = map name (Array_sort (compareNodes lc) nodes)"
  by (simp add: sortNodes_unfold comp_def)


lemma find_name_sortNodes:
  assumes "distinct (map name nodes)" and "find_name s nodes = Some n"
  shows "find_name s (sortNodes lc nodes) = Some (sorted_node lc n)"
proof -
  have "sorted_node lc n \<in> set (sortNodes lc nodes)"
    using find_name_Some [OF assms(2)] by (simp add: sortNodes_unfold set_Array_sort)
  moreover have "distinct (map name (sortNodes lc nodes))"
    using assms(1) by (simp add: map_name_sortNodes distinct_map_Array_sort)
  ultimately have "find_name (name (sorted_node lc n)) (sortNodes lc nodes) = Some (sorted_node lc n)"
    by (intro find_name_distinct)
  then show ?thesis
    using find_name_Some [OF assms(2)] by simp
qed

lemma sortNodes_kept:
  "well_formed nodes \<Longrightarrow> lookup nodes a = Some n \<Longrightarrow>
     \<exists>n'. lookup (sortNodes lc nodes) a = Some n' \<and> same_node n n'"
proof (induction a arbitrary: nodes n)
  case Nil
  then show ?case by simp
next
  case (Cons s a)
  obtain x where x: "find_name s nodes = Some x"
    using Cons.prems(2) by (auto simp: lookup_Cons split: option.splits)
  have fs: "find_name s (sortNodes lc nodes) = Some (sorted_node lc x)"
    using find_name_sortNodes [OF well_formed_distinct [OF Cons.prems(1)] x] .
  show ?case
  proof (cases "a = []")
    case True
    then show ?thesis
      using Cons.prems(2) x fs by (auto simp: lookup_Cons)
  next
    case False
    then obtain ch where ch: "children x = Some ch" "lookup ch a = Some n"
      using Cons.prems(2) x by (auto simp: lookup_Cons split: option.splits)
    have "well_formed ch"
      using well_formed_children [OF Cons.prems(1) _ ch(1)] find_name_Some [OF x] by simp
    then obtain n' where "lookup (sortNodes lc ch) a = Some n'" "same_node n n'"
      using Cons.IH ch(2) by blast
    then show ?thesis
      using False fs ch(1) by (auto simp: lookup_Cons)
  qed
qed

subsection \<open>Splitting and joining\<close>

lemma split_not_Nil [simp]: "split s sep \<noteq> []"
  by (induction s) auto

lemma join_Cons: "ps \<noteq> [] \<Longrightarrow> join (p # ps) sep = p @ sep @ join ps sep"
  by (cases ps) simp_all

lemma join_split: "join (split s c) [c] = s"
proof (induction s)
  case Nil
  show ?case by simp
next
  case (Cons x s)
  obtain p ps where ps: "split s c = p # ps"
    by (cases "split s c") simp_all
  show ?case
    using Cons by (cases ps) (auto simp: ps join_Cons)
qed

subsection \<open>Inserting a new key\<close>

lemma nonempty_last:
  "rest \<noteq> [] \<Longrightarrow> last rest \<noteq> [] \<Longrightarrow> nonempty rest \<noteq> [] \<and> last (nonempty rest) = last rest"
proof (induction rest)
  case Nil
  then show ?case by simp
next
  case (Cons x rest)
  then show ?case
    by (cases "rest = []") auto
qed

lemma strict_prefix_single: "a \<noteq> [] \<Longrightarrow> \<not> strict_prefix a [s]"
  by (cases a) (auto simp: strict_prefix_def)

lemma no_conflict_Nil [simp]: "a \<noteq> [] \<Longrightarrow> no_conflict [] a"
  by (simp add: no_conflict_def)

lemma no_conflict_single: "no_conflict nodes [s] \<Longrightarrow> find_name s nodes = None"
  by (simp add: no_conflict_def)

lemma no_conflict_head:
  assumes "no_conflict nodes (s # segs)" and "segs \<noteq> []" and "find_name s nodes = Some n"
  shows "type n = Folder"
proof -
  have "strict_prefix [s] (s # segs)"
    using assms(2) by (simp add: strict_prefix_def)
  then show ?thesis
    using assms(1,3) unfolding no_conflict_def by (auto dest!: spec [of _ "[s]"])
qed

lemma no_conflict_children:
  assumes "no_conflict nodes (s # segs)" and "segs \<noteq> []" and "find_name s nodes = Some n"
    and "children n = Some ch"
  shows "no_conflict ch segs"
proof -
  have look: "lookup nodes (s # a) = lookup ch a" if "a \<noteq> []" for a
    using that assms(3,4) by (simp add: lookup_Cons)
  have "lookup ch segs = None"
    using assms(1) look [OF assms(2)] by (simp add: no_conflict_def)
  moreover have "case lookup ch a of None \<Rightarrow> True | Some n \<Rightarrow> type n = Folder"
    if "a \<noteq> []" "strict_prefix a segs" for a
  proof -
    have "strict_prefix (s # a) (s # segs)"
      using that(2) by (simp add: strict_prefix_def)
    then show ?thesis
      using assms(1) look [OF that(1)] unfolding no_conflict_def
      by (auto dest!: spec [of _ "s # a"])
  qed
  ultimately show ?thesis
    by (simp add: no_conflict_def)
qed

lemma strict_prefix_Cons_cases:
  assumes "a \<noteq> []" and "strict_prefix a (s # segs)"
  obtains a' where "a = s # a'" and "a' = [] \<or> (a' \<noteq> [] \<and> strict_prefix a' segs)" and "segs \<noteq> []"
proof -
  obtain x a' where a: "a = x # a'"
    using assms(1) by (cases a) auto
  have "x = s" "strict_prefix a' segs"
    using assms(2) by (auto simp: a strict_prefix_def)
  moreover from this have "segs \<noteq> []"
    by auto
  ultimately show ?thesis
    using that [of a'] a by (cases "a' = []") auto
qed

lemma insert_object_creates:
  assumes "well_formed nodes" and "rest \<noteq> []" and "last rest \<noteq> []"
    and "no_conflict nodes (nonempty rest)"
  shows "lookup (insert_object sz pre rest nodes) (nonempty rest)
           = Some (TreeNode (last rest) (join (pre @ rest) ''/'') File (Some sz) None)
         \<and> (\<forall>a. a \<noteq> [] \<and> strict_prefix a (nonempty rest) \<longrightarrow>
               (\<exists>n. lookup (insert_object sz pre rest nodes) a = Some n
                    \<and> type n = Folder \<and> name n = last a))"
  using assms
proof (induction rest arbitrary: pre nodes)
  case Nil
  then show ?case by simp
next
  case (Cons part rest)
  show ?case
  proof (cases "part = []")
    case True
    then have "rest \<noteq> []" "last rest \<noteq> []" "no_conflict nodes (nonempty rest)"
      using Cons.prems by (auto split: if_splits)
    then show ?thesis
      using Cons.IH [OF Cons.prems(1), of "pre @ [part]"] True by simp
  next
    case False
    show ?thesis
    proof (cases "rest = []")
      case True
      have "find_name part nodes = None"
        using Cons.prems(4) False True by (simp add: no_conflict_single)
      then show ?thesis
        using False True by (auto simp: Let_def lookup_Cons find_name_append strict_prefix_single)
    next
      case rest: False
      then have last: "last rest \<noteq> []"
        using Cons.prems(3) by simp
      have segs: "nonempty rest \<noteq> []" "last (nonempty rest) = last rest"
        using nonempty_last [OF rest last] by simp_all
      have nc: "no_conflict nodes (part # nonempty rest)"
        using Cons.prems(4) False by simp
      let ?F = "insert_object sz pre (part # rest) nodes"
      have main: "\<exists>top C. find_name part ?F = Some top \<and> children top = Some C
          \<and> type top = Folder \<and> name top = part
          \<and> lookup C (nonempty rest)
               = Some (TreeNode (last rest) (join ((pre @ [part]) @ rest) ''/'') File (Some sz) None)
          \<and> (\<forall>a. a \<noteq> [] \<and> strict_prefix a (nonempty rest) \<longrightarrow>
               (\<exists>n. lookup C a = Some n \<and> type n = Folder \<and> name n = last a))"
      proof (cases "find_name part nodes")
        case None
        let ?C = "insert_object sz (pre @ [part]) rest []"
        have F: "?F = nodes @ [TreeNode part (join (pre @ [part]) ''/'') Folder None (Some ?C)]"
          using False rest None by (simp add: Let_def)
        have "no_conflict [] (nonempty rest)"
          using segs(1) by simp
        then show ?thesis
          unfolding F
          using Cons.IH [of "[]" "pre @ [part]", OF _ rest last] None
          by (auto simp: find_name_append)
      next
        case (Some existing)
        have folder: "type existing = Folder"
          using no_conflict_head [OF nc segs(1) Some] .
        have ex: "existing \<in> set nodes" "name existing = part"
          using find_name_Some [OF Some] by simp_all
        then obtain ch where ch: "children existing = Some ch"
          using well_formed_type [OF Cons.prems(1) ex(1)] folder by (cases "children existing") auto
        let ?C = "insert_object sz (pre @ [part]) rest ch"
        have F: "?F = set_children part ?C nodes"
          using False rest Some ch by (simp add: Let_def)
        have "well_formed ch"
          using well_formed_children [OF Cons.prems(1) ex(1) ch] .
        moreover have "no_conflict ch (nonempty rest)"
          using no_conflict_children [OF nc segs(1) Some ch] .
        ultimately show ?thesis
          unfolding F
          using Cons.IH [of ch "pre @ [part]", OF _ rest last] Some folder ex(2)
          by (auto simp: find_name_set_children)
      qed
      then obtain top C where top: "find_name part ?F = Some top" "children top = Some C"
        "type top = Folder" "name top = part"
        and leaf: "lookup C (nonempty rest)
          = Some (TreeNode (last rest) (join ((pre @ [part]) @ rest) ''/'') File (Some sz) None)"
        and dirs: "\<And>a. a \<noteq> [] \<Longrightarrow> strict_prefix a (nonempty rest) \<Longrightarrow>
               \<exists>n. lookup C a = Some n \<and> type n = Folder \<and> name n = last a"
        by blast
      have one: "lookup ?F (part # nonempty rest)
          = Some (TreeNode (last (part # rest)) (join (pre @ part # rest) ''/'') File (Some sz) None)"
        using top leaf segs(1) rest by (simp add: lookup_Cons)
      have two: "\<exists>n. lookup ?F a = Some n \<and> type n = Folder \<and> name n = last a"
        if ne: "a \<noteq> []" and sp: "strict_prefix a (part # nonempty rest)" for a
      proof -
        obtain a' where a: "a = part # a'" "a' = [] \<or> (a' \<noteq> [] \<and> strict_prefix a' (nonempty rest))"
          using strict_prefix_Cons_cases [OF ne sp] by blast
        show ?thesis
        proof (cases "a' = []")
          case True
          then show ?thesis
            using top a(1) by (simp add: lookup_Cons)
        next
          case False
          then show ?thesis
            using dirs [of a'] a top by (auto simp: lookup_Cons)
        qed
      qed
      show ?thesis
        using one two False by simp
    qed
  qed
qed

lemma insert_object_sound:
  assumes "well_formed nodes" and "rest \<noteq> []" and "last rest \<noteq> []"
    and "no_conflict nodes (nonempty rest)"
    and "lookup (insert_object sz pre rest nodes) a = Some n'"
  shows "(\<exists>n. lookup nodes a = Some n \<and> same_node n n')
         \<or> (a = nonempty rest \<and> type n' = File)
         \<or> (a \<noteq> [] \<and> strict_prefix a (nonempty rest) \<and> type n' = Folder)"
  using assms
proof (induction rest arbitrary: pre nodes a n')
  case Nil
  then show ?case by simp
next
  case (Cons part rest)
  show ?case
  proof (cases "part = []")
    case True
    then have "rest \<noteq> []" "last rest \<noteq> []" "no_conflict nodes (nonempty rest)"
      "lookup (insert_object sz (pre @ [part]) rest nodes) a = Some n'"
      using Cons.prems by (auto split: if_splits)
    then show ?thesis
      using Cons.IH [OF Cons.prems(1), of "pre @ [part]" a n'] True by simp
  next
    case False
    obtain s a' where a: "a = s # a'"
      using Cons.prems(5) by (cases a) auto
    let ?F = "insert_object sz pre (part # rest) nodes"
    show ?thesis
    proof (cases "rest = []")
      case True
      have none: "find_name part nodes = None"
        using Cons.prems(4) False True by (simp add: no_conflict_single)
      have F: "?F = nodes @ [TreeNode part (join (pre @ [part]) ''/'') File (Some sz) None]"
        using False True none by (simp add: Let_def)
      from Cons.prems(5)
      have L: "lookup (nodes @ [TreeNode part (join (pre @ [part]) ''/'') File (Some sz) None]) a
                 = Some n'"
        unfolding F .
      show ?thesis
      proof (cases "find_name s nodes")
        case None
        then show ?thesis
          using L False True
          by (auto simp: a lookup_Cons find_name_append split: if_splits)
      next
        case (Some m)
        then have "lookup nodes a = Some n'"
          using L by (simp add: a lookup_Cons find_name_append)
        then show ?thesis
          by auto
      qed
    next
      case rest: False
      then have last: "last rest \<noteq> []"
        using Cons.prems(3) by simp
      have segs: "nonempty rest \<noteq> []"
        using nonempty_last [OF rest last] by simp
      have nc: "no_conflict nodes (part # nonempty rest)"
        using Cons.prems(4) False by simp
      have deeper: ?thesis
        if C: "lookup C a' = Some n'" "a' \<noteq> []" "s = part"
          and old: "\<And>n. lookup ch a' = Some n \<Longrightarrow> lookup nodes a = Some n"
          and ih: "(\<exists>n. lookup ch a' = Some n \<and> same_node n n')
                 \<or> (a' = nonempty rest \<and> type n' = File)
                 \<or> (a' \<noteq> [] \<and> strict_prefix a' (nonempty rest) \<and> type n' = Folder)"
        for C ch
        using ih old C(3) False by (auto simp: a strict_prefix_def)
      show ?thesis
      proof (cases "find_name part nodes")
        case None
        let ?C = "insert_object sz (pre @ [part]) rest []"
        have F: "?F = nodes @ [TreeNode part (join (pre @ [part]) ''/'') Folder None (Some ?C)]"
          using False rest None by (simp add: Let_def)
        from Cons.prems(5)
        have L: "lookup (nodes @ [TreeNode part (join (pre @ [part]) ''/'') Folder None (Some ?C)]) a
                   = Some n'"
          unfolding F .
        show ?thesis
        proof (cases "find_name s nodes")
          case (Some m)
          then have "lookup nodes a = Some n'"
            using L by (simp add: a lookup_Cons find_name_append)
          then show ?thesis
            by auto
        next
          case sNone: None
          then have s: "s = part"
            using L by (auto simp: a lookup_Cons find_name_append split: if_splits)
          show ?thesis
          proof (cases "a' = []")
            case True
            then have "type n' = Folder"
              using L sNone s by (auto simp: a lookup_Cons find_name_append)
            then show ?thesis
              using True s False segs by (simp add: a strict_prefix_def)
          next
            case a': False
            then have C: "lookup ?C a' = Some n'"
              using L sNone s by (auto simp: a lookup_Cons find_name_append)
            have "no_conflict [] (nonempty rest)"
              using segs by simp
            then show ?thesis
              using deeper [OF C a' s, of "[]"]
                Cons.IH [of "[]" "pre @ [part]" a' n', OF _ rest last _ C]
              by simp
          qed
        qed
      next
        case (Some existing)
        have folder: "type existing = Folder"
          using no_conflict_head [OF nc segs Some] .
        have ex: "existing \<in> set nodes" "name existing = part"
          using find_name_Some [OF Some] by simp_all
        then obtain ch where ch: "children existing = Some ch"
          using well_formed_type [OF Cons.prems(1) ex(1)] folder by (cases "children existing") auto
        let ?C = "insert_object sz (pre @ [part]) rest ch"
        have F: "?F = set_children part ?C nodes"
          using False rest Some ch by (simp add: Let_def)
        from Cons.prems(5) have L: "lookup (set_children part ?C nodes) a = Some n'"
          unfolding F .
        have wch: "well_formed ch"
          using well_formed_children [OF Cons.prems(1) ex(1) ch] .
        have ncch: "no_conflict ch (nonempty rest)"
          using no_conflict_children [OF nc segs Some ch] .
        show ?thesis
        proof (cases "s = part")
          case False
          then have "lookup nodes a = Some n'"
            using L by (simp add: a lookup_Cons find_name_set_children)
          then show ?thesis
            by auto
        next
          case s: True
          show ?thesis
          proof (cases "a' = []")
            case True
            then have "n' = with_children existing ?C" "lookup nodes a = Some existing"
              using L s Some by (auto simp: a lookup_Cons find_name_set_children)
            then show ?thesis
              using ch by auto
          next
            case a': False
            then have C: "lookup ?C a' = Some n'"
              using L s Some by (auto simp: a lookup_Cons find_name_set_children)
            have old: "lookup nodes a = Some n" if "lookup ch a' = Some n" for n
              using that a' s Some ch by (simp add: a lookup_Cons)
            show ?thesis
              using deeper [OF C a' s old]
                Cons.IH [of ch "pre @ [part]" a' n', OF wch rest last ncch C]
              by simp
          qed
        qed
      qed
    qed
  qed
qed

subsection \<open>The passes of the builder\<close>

lemma buildFileTree_passes:
  "buildFileTree lc objects h =
     sortNodes lc
       (if h then second_pass objects (first_pass (filteredObjects objects h))
        else first_pass (filteredObjects objects h))"
  by (simp add: buildFileTree_def first_pass_def second_pass_def filteredObjects_def Let_def)

lemma first_pass_snoc:
  "first_pass (objs @ [obj])
     = insert_object (size_bytes obj) [] (split (key obj) CHR ''/'') (first_pass objs)"
  by (simp add: first_pass_def)

lemma well_formed_first_pass: "well_formed (first_pass objs)"
  by (induction objs rule: rev_induct)
    (simp_all add: first_pass_snoc well_formed_insert_object, simp add: first_pass_def)

lemma well_formed_second_pass: "well_formed nodes \<Longrightarrow> well_formed (second_pass objs nodes)"
  unfolding second_pass_def
  by (induction objs arbitrary: nodes) (simp_all add: well_formed_insert_folder)

lemma second_pass_kept:
  "lookup nodes a = Some n \<Longrightarrow> \<exists>n'. lookup (second_pass objs nodes) a = Some n' \<and> same_node n n'"
  unfolding second_pass_def
proof (induction objs arbitrary: nodes n)
  case Nil
  then show ?case by auto
next
  case (Cons obj objs)
  let ?g = "\<lambda>root obj. if endsWith (key obj) ''/.keep''
              then insert_folder [] (split (replace_first (key obj) ''/.keep'') CHR ''/'') root
              else root"
  obtain m where m: "lookup (?g nodes obj) a = Some m" "same_node n m"
    using insert_folder_kept [OF Cons.prems] Cons.prems same_node_refl
    by (cases "endsWith (key obj) ''/.keep''") auto
  obtain n' where "lookup (foldl ?g (?g nodes obj) objs) a = Some n'" "same_node m n'"
    using Cons.IH [OF m(1)] by blast
  then show ?case
    using m(2) same_node_trans by auto
qed



subsection \<open>Keys that do not get in each other's way\<close>

lemma prefix_free_snoc:
  "prefix_free (ks @ [k]) \<longleftrightarrow>
     prefix_free ks \<and> (\<forall>k' \<in> set ks. \<not> prefix k' k \<and> \<not> prefix k k')"
  by (induction ks) auto

lemma split_single: "tl (split s c) = [] \<Longrightarrow> hd (split s c) = s \<and> c \<notin> set s"
  by (induction s) (auto split: if_splits)

lemma last_split: "last (split s c) = [] \<longleftrightarrow> s = [] \<or> last s = c"
proof (induction s)
  case Nil
  show ?case by simp
next
  case (Cons x s)
  let ?r = "split s c"
  show ?case
  proof (cases "x = c")
    case True
    then show ?thesis
      using Cons by (cases "s = []") auto
  next
    case False
    show ?thesis
    proof (cases "tl ?r = []")
      case True
      then have "c \<notin> set s"
        using split_single by blast
      then have "s \<noteq> [] \<Longrightarrow> last s \<noteq> c"
        using last_in_set by blast
      then show ?thesis
        using False True by auto
    next
      case tl: False
      then have "s \<noteq> []"
        by auto
      moreover have "last (tl ?r) = last ?r"
        using tl by (cases ?r) auto
      ultimately show ?thesis
        using False tl Cons by auto
    qed
  qed
qed

lemma covered_no_conflict:
  assumes "covered nodes ks" and "\<forall>k \<in> set ks. \<not> prefix k p \<and> \<not> prefix p k"
  shows "no_conflict nodes p"
proof -
  have cov: "if type n = File then a \<in> set ks else (\<exists>k \<in> set ks. strict_prefix a k)"
    if "lookup nodes a = Some n" for a n
    using assms(1) that unfolding covered_def by blast
  have "lookup nodes p = None"
  proof (cases "lookup nodes p")
    case (Some n)
    then show ?thesis
      using cov [OF Some] assms(2) by (auto simp: strict_prefix_def split: if_splits)
  qed simp
  moreover have "case lookup nodes a of None \<Rightarrow> True | Some n \<Rightarrow> type n = Folder"
    if "strict_prefix a p" for a
  proof (cases "lookup nodes a")
    case (Some n)
    have "type n \<noteq> File"
      using cov [OF Some] assms(2) that by (auto simp: strict_prefix_def)
    then show ?thesis
      using Some by (cases "type n") auto
  qed simp
  ultimately show ?thesis
    by (simp add: no_conflict_def)
qed

lemma covered_insert_object:
  assumes "covered nodes ks" and "rest \<noteq> []" and "last rest \<noteq> []"
    and "\<forall>k \<in> set ks. \<not> prefix k (nonempty rest) \<and> \<not> prefix (nonempty rest) k"
  shows "covered (insert_object sz pre rest nodes) (ks @ [nonempty rest])"
proof -
  have wf: "well_formed nodes"
    using assms(1) by (simp add: covered_def)
  have nc: "no_conflict nodes (nonempty rest)"
    using covered_no_conflict [OF assms(1,4)] .
  have "if type n' = File then a \<in> set (ks @ [nonempty rest])
        else (\<exists>k \<in> set (ks @ [nonempty rest]). strict_prefix a k)"
    if look: "lookup (insert_object sz pre rest nodes) a = Some n'" for a n'
  proof -
    consider n where "lookup nodes a = Some n" "same_node n n'"
      | "a = nonempty rest" "type n' = File"
      | "strict_prefix a (nonempty rest)" "type n' = Folder"
      using insert_object_sound [OF wf assms(2,3) nc look] by blast
    then show ?thesis
    proof cases
      case 1
      have "if type n = File then a \<in> set ks else (\<exists>k \<in> set ks. strict_prefix a k)"
        using assms(1) 1(1) unfolding covered_def by blast
      moreover have "type n' = type n"
        using 1(2) by (simp add: same_node_def)
      ultimately show ?thesis
        by (auto split: if_splits)
    qed auto
  qed
  then show ?thesis
    using well_formed_insert_object [OF wf] unfolding covered_def by blast
qed

lemma first_pass_trie:
  fixes objs :: "'a R2ObjectItem_scheme list"
  assumes "\<forall>obj \<in> set objs. key obj \<noteq> [] \<and> last (key obj) \<noteq> CHR ''/''"
    and "prefix_free (map (\<lambda>obj. segments (key obj)) objs)"
  shows "covered (first_pass objs) (map (\<lambda>obj. segments (key obj)) objs)
     \<and> (\<forall>obj \<in> set objs.
          lookup (first_pass objs) (segments (key obj)) = Some (file_node obj)
          \<and> (\<forall>a. a \<noteq> [] \<and> strict_prefix a (segments (key obj)) \<longrightarrow>
                (\<exists>n. lookup (first_pass objs) a = Some n \<and> type n = Folder \<and> name n = last a)))"
  using assms
proof (induction objs rule: rev_induct)
  case Nil
  show ?case
    by (simp add: first_pass_def covered_def)
next
  case (snoc x objs)
  let ?F = "first_pass objs"
  let ?rest = "split (key x) CHR ''/''"
  let ?F' = "insert_object (size_bytes x) [] ?rest ?F"
  have F': "first_pass (objs @ [x]) = ?F'"
    by (rule first_pass_snoc)
  have free: "prefix_free (map (\<lambda>obj. segments (key obj)) objs)"
    "\<forall>k \<in> set (map (\<lambda>obj. segments (key obj)) objs).
        \<not> prefix k (segments (key x)) \<and> \<not> prefix (segments (key x)) k"
    using snoc.prems(2) by (auto simp: prefix_free_snoc)
  have ih: "covered ?F (map (\<lambda>obj. segments (key obj)) objs)"
    "\<And>obj. obj \<in> set objs \<Longrightarrow> lookup ?F (segments (key obj)) = Some (file_node obj)"
    "\<And>obj a. obj \<in> set objs \<Longrightarrow> a \<noteq> [] \<Longrightarrow> strict_prefix a (segments (key obj)) \<Longrightarrow>
        \<exists>n. lookup ?F a = Some n \<and> type n = Folder \<and> name n = last a"
    using snoc.IH [OF _ free(1)] snoc.prems(1) by auto
  have rest: "?rest \<noteq> []" "last ?rest \<noteq> []"
    using snoc.prems(1) by (simp_all add: last_split)
  have segs: "nonempty ?rest = segments (key x)"
    by (simp add: segments_def)
  have wf: "well_formed ?F"
    by (rule well_formed_first_pass)
  have nc: "no_conflict ?F (nonempty ?rest)"
    using covered_no_conflict [OF ih(1)] free(2) segs by simp
  have cov: "covered ?F' (map (\<lambda>obj. segments (key obj)) (objs @ [x]))"
    using covered_insert_object [OF ih(1) rest, of "size_bytes x" "[]"] free(2) segs by simp
  have new: "lookup ?F' (segments (key x)) = Some (file_node x)"
    "\<And>a. a \<noteq> [] \<Longrightarrow> strict_prefix a (segments (key x)) \<Longrightarrow>
        \<exists>n. lookup ?F' a = Some n \<and> type n = Folder \<and> name n = last a"
    using insert_object_creates [OF wf rest nc, of "size_bytes x" "[]"] nonempty_last [OF rest]
    by (simp_all add: segs file_node_def join_split)
  have old1: "lookup ?F' (segments (key obj)) = Some (file_node obj)" if mem: "obj \<in> set objs" for obj
  proof -
    obtain n' where "lookup ?F' (segments (key obj)) = Some n'" "same_node (file_node obj) n'"
      using insert_object_kept [OF ih(2) [OF mem]] by blast
    then show ?thesis
      using same_node_leaf [of "file_node obj" n'] by (simp add: file_node_def)
  qed
  have old2: "\<exists>n. lookup ?F' a = Some n \<and> type n = Folder \<and> name n = last a"
    if mem: "obj \<in> set objs" "a \<noteq> []" "strict_prefix a (segments (key obj))" for obj a
  proof -
    obtain n where n: "lookup ?F a = Some n" "type n = Folder" "name n = last a"
      using ih(3) [OF mem] by blast
    obtain n' where "lookup ?F' a = Some n'" "same_node n n'"
      using insert_object_kept [OF n(1)] by blast
    then show ?thesis
      using n(2,3) by (auto simp: same_node_def)
  qed
  show ?case
    unfolding F' using cov new old1 old2 by (auto simp: F')
qed

subsection \<open>Where the file nodes come from\<close>

lemma all_nodes_Nil [simp]: "all_nodes [] = []"
  by (simp add: all_nodes.simps)

lemma all_nodes_Cons:
  "all_nodes (n # nodes) =
     (n # (case children n of None \<Rightarrow> [] | Some ch \<Rightarrow> all_nodes ch)) @ all_nodes nodes"
  by (simp add: all_nodes.simps [of "n # nodes"] all_nodes.simps [of nodes])

lemma all_nodes_append: "all_nodes (xs @ ys) = all_nodes xs @ all_nodes ys"
  by (induction xs) (simp_all add: all_nodes_Cons)

lemma files_Nil [simp]: "files [] = {}"
  by (simp add: files_def)

lemma files_Cons:
  "files (n # nodes) =
     (if type n = File then {n} else {})
     \<union> (case children n of None \<Rightarrow> {} | Some ch \<Rightarrow> files ch) \<union> files nodes"
  by (auto simp: files_def all_nodes_Cons split: option.splits)

lemma files_append: "files (xs @ ys) = files xs \<union> files ys"
  by (auto simp: files_def all_nodes_append)

lemma files_mem:
  "n \<in> files nodes \<longleftrightarrow>
     (\<exists>m \<in> set nodes. (n = m \<and> type m = File)
        \<or> (\<exists>ch. children m = Some ch \<and> n \<in> files ch))"
  by (induction nodes) (auto simp: files_Cons split: option.splits)

lemma files_children:
  "m \<in> set nodes \<Longrightarrow> children m = Some ch \<Longrightarrow> files ch \<subseteq> files nodes"
  using files_mem [of _ nodes] by blast

lemma files_set_children:
  assumes "n \<in> files (set_children part C nodes)"
    and "\<forall>m \<in> set nodes. name m = part \<longrightarrow> type m = Folder"
  shows "n \<in> files nodes \<or> n \<in> files C"
  using assms
proof (induction nodes)
  case Nil
  then show ?case by simp
next
  case (Cons m nodes)
  show ?case
  proof (cases "name m = part")
    case True
    then have "type m = Folder"
      using Cons.prems(2) by simp
    then show ?thesis
      using Cons.prems(1) True by (auto simp: files_Cons split: option.splits if_splits)
  next
    case False
    then show ?thesis
      using Cons by (auto simp: files_Cons split: option.splits if_splits)
  qed
qed

lemma well_formed_named_folder:
  assumes "well_formed nodes" and "find_name part nodes = Some existing"
    and "children existing \<noteq> None"
  shows "\<forall>m \<in> set nodes. name m = part \<longrightarrow> type m = Folder"
proof
  fix m assume m: "m \<in> set nodes"
  show "name m = part \<longrightarrow> type m = Folder"
  proof
    assume "name m = part"
    then have "find_name part nodes = Some m"
      using find_name_distinct [OF well_formed_distinct [OF assms(1)] m] by simp
    then have "m = existing"
      using assms(2) by simp
    then show "type m = Folder"
      using well_formed_type [OF assms(1) m] assms(3) by (cases "type m") auto
  qed
qed

lemma insert_object_files:
  assumes "well_formed nodes" and "n \<in> files (insert_object sz pre rest nodes)"
  shows "n \<in> files nodes
     \<or> (rest \<noteq> [] \<and> last rest \<noteq> []
        \<and> n = TreeNode (last rest) (join (pre @ rest) ''/'') File (Some sz) None)"
  using assms
proof (induction rest arbitrary: pre nodes)
  case Nil
  then show ?case by simp
next
  case (Cons part rest)
  let ?F = "insert_object sz pre (part # rest) nodes"
  show ?case
  proof (cases "part = []")
    case True
    then have "n \<in> files (insert_object sz (pre @ [part]) rest nodes)"
      using Cons.prems(2) by simp
    then show ?thesis
      using Cons.IH [OF Cons.prems(1), of "pre @ [part]"] True by auto
  next
    case False
    show ?thesis
    proof (cases "find_name part nodes")
      case None
      show ?thesis
      proof (cases "rest = []")
        case True
        have "?F = nodes @ [TreeNode part (join (pre @ [part]) ''/'') File (Some sz) None]"
          using False None True by (simp add: Let_def)
        then have "n \<in> files (nodes @ [TreeNode part (join (pre @ [part]) ''/'') File (Some sz) None])"
          using Cons.prems(2) by simp
        then show ?thesis
          using False True by (auto simp: files_append files_Cons)
      next
        case rest: False
        let ?C = "insert_object sz (pre @ [part]) rest []"
        have "?F = nodes @ [TreeNode part (join (pre @ [part]) ''/'') Folder None (Some ?C)]"
          using False None rest by (simp add: Let_def)
        then have "n \<in> files (nodes @ [TreeNode part (join (pre @ [part]) ''/'') Folder None (Some ?C)])"
          using Cons.prems(2) by simp
        then have "n \<in> files nodes \<or> n \<in> files ?C"
          by (auto simp: files_append files_Cons)
        then show ?thesis
          using Cons.IH [of "[]" "pre @ [part]"] rest by auto
      qed
    next
      case (Some existing)
      show ?thesis
      proof (cases "rest \<noteq> [] \<and> children existing \<noteq> None")
        case True
        then obtain ch where ch: "children existing = Some ch"
          by auto
        let ?C = "insert_object sz (pre @ [part]) rest ch"
        have ex: "existing \<in> set nodes"
          using find_name_Some [OF Some] by simp
        have "?F = set_children part ?C nodes"
          using False Some True ch by (simp add: Let_def)
        then have "n \<in> files (set_children part ?C nodes)"
          using Cons.prems(2) by simp
        then have "n \<in> files nodes \<or> n \<in> files ?C"
          using files_set_children well_formed_named_folder [OF Cons.prems(1) Some] ch by blast
        moreover have "files ch \<subseteq> files nodes"
          using files_children [OF ex ch] .
        moreover have "well_formed ch"
          using well_formed_children [OF Cons.prems(1) ex ch] .
        ultimately show ?thesis
          using Cons.IH [of ch "pre @ [part]"] True by auto
      next
        case no: False
        then have "?F = insert_object sz (pre @ [part]) rest nodes"
          using False Some by (auto simp: Let_def)
        then have "n \<in> files (insert_object sz (pre @ [part]) rest nodes)"
          using Cons.prems(2) by simp
        then show ?thesis
          using Cons.IH [OF Cons.prems(1), of "pre @ [part]"] by auto
      qed
    qed
  qed
qed

lemma insert_folder_files:
  assumes "well_formed nodes" and "n \<in> files (insert_folder pre rest nodes)"
  shows "n \<in> files nodes"
  using assms
proof (induction rest arbitrary: pre nodes)
  case Nil
  then show ?case by simp
next
  case (Cons part rest)
  let ?F = "insert_folder pre (part # rest) nodes"
  show ?case
  proof (cases "part = []")
    case True
    then show ?thesis
      using Cons by simp
  next
    case False
    show ?thesis
    proof (cases "find_name part nodes")
      case None
      let ?C = "insert_folder (pre @ [part]) rest []"
      have "?F = nodes @ [TreeNode part (join (pre @ [part]) ''/'') Folder None (Some ?C)]"
        using False None by (simp add: Let_def)
      then have "n \<in> files (nodes @ [TreeNode part (join (pre @ [part]) ''/'') Folder None (Some ?C)])"
        using Cons.prems(2) by simp
      then have "n \<in> files nodes \<or> n \<in> files ?C"
        by (auto simp: files_append files_Cons)
      then show ?thesis
        using Cons.IH [of "[]" "pre @ [part]"] by auto
    next
      case (Some existing)
      show ?thesis
      proof (cases "children existing")
        case None
        then have "?F = insert_folder (pre @ [part]) rest nodes"
          using False Some by (simp add: Let_def)
        then show ?thesis
          using Cons.IH [OF Cons.prems(1), of "pre @ [part]"] Cons.prems(2) by simp
      next
        case ch: (Some ch)
        let ?C = "insert_folder (pre @ [part]) rest ch"
        have ex: "existing \<in> set nodes"
          using find_name_Some [OF Some] by simp
        have "?F = set_children part ?C nodes"
          using False Some ch by (simp add: Let_def)
        then have "n \<in> files (set_children part ?C nodes)"
          using Cons.prems(2) by simp
        then have "n \<in> files nodes \<or> n \<in> files ?C"
          using files_set_children well_formed_named_folder [OF Cons.prems(1) Some] ch by blast
        moreover have "files ch \<subseteq> files nodes"
          using files_children [OF ex ch] .
        moreover have "well_formed ch"
          using well_formed_children [OF Cons.prems(1) ex ch] .
        ultimately show ?thesis
          using Cons.IH [of ch "pre @ [part]"] by auto
      qed
    qed
  qed
qed

lemma sortNodes_files:
  "well_formed nodes \<Longrightarrow> n \<in> files (sortNodes lc nodes) \<Longrightarrow> n \<in> files nodes"
proof (induction lc nodes arbitrary: n rule: sortNodes.induct)
  case (1 lc nodes)
  obtain m' where m': "m' \<in> set (sortNodes lc nodes)"
    "(n = m' \<and> type m' = File) \<or> (\<exists>ch. children m' = Some ch \<and> n \<in> files ch)"
    using "1.prems"(2) by (auto simp: files_mem [of _ "sortNodes lc nodes"])
  then obtain m where m: "m \<in> set nodes" "m' = sorted_node lc m"
    by (auto simp: sortNodes_unfold set_Array_sort)
  show ?case
  proof (cases "children m")
    case None
    then have "m' = m"
      using m(2) by (simp add: sorted_node_def)
    then show ?thesis
      using m' m(1) None by (auto simp: files_mem [of _ nodes])
  next
    case (Some ch)
    then have folder: "type m = Folder"
      using well_formed_type [OF "1.prems"(1) m(1)] by (cases "type m") auto
    have "n \<in> files (sortNodes lc ch)"
      using m' m(2) Some folder by auto
    moreover have "well_formed ch"
      using well_formed_children [OF "1.prems"(1) m(1) Some] .
    ultimately have "n \<in> files ch"
      using "1.IH" [of m ch n] m(1) Some by (simp add: set_Array_sort)
    then show ?thesis
      using m(1) Some by (auto simp: files_mem [of _ nodes])
  qed
qed

lemma first_pass_files:
  fixes objs :: "'a R2ObjectItem_scheme list"
  shows "n \<in> files (first_pass objs) \<Longrightarrow>
    \<exists>obj \<in> set objs. last (split (key obj) CHR ''/'') \<noteq> []
       \<and> n = TreeNode (last (split (key obj) CHR ''/'')) (key obj) File (Some (size_bytes obj)) None"
proof (induction objs arbitrary: n rule: rev_induct)
  case Nil
  then show ?case by (simp add: first_pass_def)
next
  case (snoc x objs)
  have "n \<in> files (first_pass objs)
      \<or> (last (split (key x) CHR ''/'') \<noteq> []
         \<and> n = TreeNode (last (split (key x) CHR ''/'')) (join ([] @ split (key x) CHR ''/'') ''/'')
                 File (Some (size_bytes x)) None)"
    using insert_object_files [OF well_formed_first_pass, of n "size_bytes x" "[]"
        "split (key x) CHR ''/''" objs] snoc.prems
    by (auto simp: first_pass_snoc)
  then show ?case
    using snoc.IH by (auto simp: join_split)
qed

lemma second_pass_files:
  "well_formed nodes \<Longrightarrow> n \<in> files (second_pass objs nodes) \<Longrightarrow> n \<in> files nodes"
  unfolding second_pass_def
proof (induction objs arbitrary: nodes)
  case Nil
  then show ?case by simp
next
  case (Cons obj objs)
  let ?g = "\<lambda>root obj. if endsWith (key obj) ''/.keep''
              then insert_folder [] (split (replace_first (key obj) ''/.keep'') CHR ''/'') root
              else root"
  have wf: "well_formed (?g nodes obj)"
    using Cons.prems(1) by (simp add: well_formed_insert_folder)
  have "n \<in> files (?g nodes obj)"
    using Cons.IH [OF wf] Cons.prems(2) by simp
  then show ?case
    using insert_folder_files [OF Cons.prems(1)] by (auto split: if_splits)
qed

lemma buildFileTree_files:
  fixes objects :: "'a R2ObjectItem_scheme list"
  assumes "n \<in> files (buildFileTree lc objects h)"
  shows "\<exists>obj \<in> set (filteredObjects objects h). last (split (key obj) CHR ''/'') \<noteq> []
       \<and> n = TreeNode (last (split (key obj) CHR ''/'')) (key obj) File (Some (size_bytes obj)) None"
proof -
  let ?F1 = "first_pass (filteredObjects objects h)"
  let ?F2 = "if h then second_pass objects ?F1 else ?F1"
  have wf: "well_formed ?F2"
    by (simp add: well_formed_second_pass well_formed_first_pass)
  have "n \<in> files ?F2"
    using sortNodes_files [OF wf] assms by (simp add: buildFileTree_passes)
  then have "n \<in> files ?F1"
    using second_pass_files [OF well_formed_first_pass] by (auto split: if_splits)
  then show ?thesis
    by (rule first_pass_files)
qed

subsection \<open>Markers\<close>

lemma join_snoc: "ps \<noteq> [] \<Longrightarrow> join (ps @ [p]) sep = join ps sep @ sep @ p"
proof (induction ps)
  case Nil
  then show ?case by simp
next
  case (Cons q ps)
  then show ?case
    by (cases "ps = []") (simp_all add: join_Cons)
qed

lemma endsWith_append [simp]: "endsWith (a @ p) p"
  by (simp add: endsWith_def)

lemma last_split_keep:
  assumes "last (split s CHR ''/'') = ''.keep''"
  shows "s = ''.keep'' \<or> endsWith s ''/.keep''"
proof -
  let ?ps = "split s CHR ''/''"
  have ne: "?ps \<noteq> []"
    by simp
  then have ps: "?ps = butlast ?ps @ [''.keep'']"
    using assms by (metis append_butlast_last_id)
  have s: "s = join ?ps ''/''"
    by (simp add: join_split)
  show ?thesis
  proof (cases "butlast ?ps = []")
    case True
    then have "?ps = [''.keep'']"
      using ps by simp
    then show ?thesis
      using s by simp
  next
    case False
    have "s = join (butlast ?ps @ [''.keep'']) ''/''"
      using s ps by simp
    also have "\<dots> = join (butlast ?ps) ''/'' @ ''/'' @ ''.keep''"
      using join_snoc [OF False] by simp
    finally have "s = join (butlast ?ps) ''/'' @ ''/.keep''"
      by simp
    then show ?thesis
      by (metis endsWith_append)
  qed
qed

lemma filteredObjects_drop_keep:
  "filteredObjects (filter (\<lambda>obj. key obj \<noteq> ''.keep'') objects) True = filteredObjects objects True"
  by (induction objects) (auto simp: filteredObjects_def)

lemma second_pass_drop_keep:
  "second_pass (filter (\<lambda>obj. key obj \<noteq> ''.keep'') objects) nodes = second_pass objects nodes"
proof (induction objects arbitrary: nodes)
  case Nil
  show ?case by simp
next
  case (Cons obj objects)
  have "\<not> endsWith ''.keep'' ''/.keep''"
    by (simp add: endsWith_def)
  then show ?case
    using Cons by (auto simp: second_pass_def)
qed

lemma buildFileTree_drop_keep:
  "buildFileTree lc (filter (\<lambda>obj. key obj \<noteq> ''.keep'') objects) True = buildFileTree lc objects True"
  by (simp add: buildFileTree_passes filteredObjects_drop_keep second_pass_drop_keep)


lemma example_visible:
  "filteredObjects example_objects True =
     [\<lparr>key = ''docs/a.txt'', size_bytes = 3\<rparr>,
      \<lparr>key = ''docs/img/b.png'', size_bytes = 7\<rparr>,
      \<lparr>key = ''readme.md'', size_bytes = 1\<rparr>]"
  by code_simp



section \<open>Properties of the file tree: \<open>.keep\<close> markers\<close>

subsection \<open>The folders of a marker\<close>

lemma startsWith_keep_append:
  assumes "startsWith (s @ ''/.keep'') ''/.keep''" and "s \<noteq> []"
  shows "startsWith s ''/.keep''"
proof (cases "6 \<le> length s")
  case True
  then show ?thesis
    using assms(1) by (simp add: startsWith_def)
next
  case False
  moreover have "0 < length s"
    using assms(2) by simp
  ultimately have "length s = 1 \<or> length s = 2 \<or> length s = 3 \<or> length s = 4 \<or> length s = 5"
    by arith
  then obtain a b c d e where
    "s = [a] \<or> s = [a, b] \<or> s = [a, b, c] \<or> s = [a, b, c, d] \<or> s = [a, b, c, d, e]"
    by (auto simp: length_Suc_conv numeral_eq_Suc)
  then show ?thesis
    using assms(1) by (auto simp: startsWith_def)
qed

lemma replace_first_keep:
  "\<not> str_includes p ''/.keep'' \<Longrightarrow> replace_first (p @ ''/.keep'') ''/.keep'' = p"
proof (induction p)
  case Nil
  show ?case by (simp add: startsWith_def)
next
  case (Cons c p)
  have "\<not> startsWith (c # p) ''/.keep''" "\<not> str_includes p ''/.keep''"
    using Cons.prems by simp_all
  moreover from this have "\<not> startsWith ((c # p) @ ''/.keep'') ''/.keep''"
    using startsWith_keep_append [of "c # p"] by blast
  ultimately show ?case
    using Cons.IH by simp
qed

lemma no_file_on_Nil [simp]: "no_file_on [] segs"
  by (simp add: no_file_on_def)

lemma no_file_on_head:
  "no_file_on nodes (s # segs) \<Longrightarrow> find_name s nodes = Some n \<Longrightarrow> type n = Folder"
  unfolding no_file_on_def by (auto dest!: spec [of _ "[s]"])

lemma no_file_on_children:
  assumes "no_file_on nodes (s # segs)" and "find_name s nodes = Some n" and "children n = Some ch"
  shows "no_file_on ch segs"
proof -
  have "case lookup ch a of None \<Rightarrow> True | Some n \<Rightarrow> type n = Folder"
    if ne: "a \<noteq> []" and pre: "prefix a segs" for a
  proof -
    have "lookup nodes (s # a) = lookup ch a"
      using ne assms(2,3) by (simp add: lookup_Cons)
    moreover have "prefix (s # a) (s # segs)"
      using pre by simp
    ultimately show ?thesis
      using assms(1) unfolding no_file_on_def by (auto dest!: spec [of _ "s # a"])
  qed
  then show ?thesis
    by (simp add: no_file_on_def)
qed

lemma insert_folder_creates:
  assumes "well_formed nodes" and "no_file_on nodes (nonempty rest)"
  shows "\<forall>a. a \<noteq> [] \<and> prefix a (nonempty rest) \<longrightarrow>
           (\<exists>n. lookup (insert_folder pre rest nodes) a = Some n
                \<and> type n = Folder \<and> name n = last a)"
  using assms
proof (induction rest arbitrary: pre nodes)
  case Nil
  then show ?case by simp
next
  case (Cons part rest)
  let ?F = "insert_folder pre (part # rest) nodes"
  show ?case
  proof (cases "part = []")
    case True
    then show ?thesis
      using Cons.IH [OF Cons.prems(1), of "pre @ [part]"] Cons.prems(2) by simp
  next
    case False
    then have nf: "no_file_on nodes (part # nonempty rest)"
      using Cons.prems(2) by simp
    have main: "\<exists>top C. find_name part ?F = Some top \<and> children top = Some C
        \<and> type top = Folder \<and> name top = part
        \<and> (\<forall>a. a \<noteq> [] \<and> prefix a (nonempty rest) \<longrightarrow>
              (\<exists>n. lookup C a = Some n \<and> type n = Folder \<and> name n = last a))"
    proof (cases "find_name part nodes")
      case None
      let ?C = "insert_folder (pre @ [part]) rest []"
      have F: "?F = nodes @ [TreeNode part (join (pre @ [part]) ''/'') Folder None (Some ?C)]"
        using False None by (simp add: Let_def)
      show ?thesis
        unfolding F using Cons.IH [of "[]" "pre @ [part]"] None
        by (auto simp: find_name_append)
    next
      case (Some existing)
      have folder: "type existing = Folder"
        using no_file_on_head [OF nf Some] .
      have ex: "existing \<in> set nodes" "name existing = part"
        using find_name_Some [OF Some] by simp_all
      then obtain ch where ch: "children existing = Some ch"
        using well_formed_type [OF Cons.prems(1) ex(1)] folder by (cases "children existing") auto
      let ?C = "insert_folder (pre @ [part]) rest ch"
      have F: "?F = set_children part ?C nodes"
        using False Some ch by (simp add: Let_def)
      have "well_formed ch"
        using well_formed_children [OF Cons.prems(1) ex(1) ch] .
      moreover have "no_file_on ch (nonempty rest)"
        using no_file_on_children [OF nf Some ch] .
      ultimately show ?thesis
        unfolding F using Cons.IH [of ch "pre @ [part]"] Some folder ex(2)
        by (auto simp: find_name_set_children)
    qed
    then obtain top C where top: "find_name part ?F = Some top" "children top = Some C"
      "type top = Folder" "name top = part"
      and dirs: "\<And>a. a \<noteq> [] \<Longrightarrow> prefix a (nonempty rest) \<Longrightarrow>
             \<exists>n. lookup C a = Some n \<and> type n = Folder \<and> name n = last a"
      by blast
    have "\<exists>n. lookup ?F a = Some n \<and> type n = Folder \<and> name n = last a"
      if ne: "a \<noteq> []" and pre: "prefix a (part # nonempty rest)" for a
    proof -
      obtain a' where a: "a = part # a'" "prefix a' (nonempty rest)"
        using ne pre by (cases a) auto
      show ?thesis
      proof (cases "a' = []")
        case True
        then show ?thesis
          using top a(1) by (simp add: lookup_Cons)
      next
        case False
        then show ?thesis
          using dirs [of a'] a top by (auto simp: lookup_Cons)
      qed
    qed
    then show ?thesis
      using False by simp
  qed
qed

lemma insert_folder_file_lookup:
  assumes "well_formed nodes" and "lookup (insert_folder pre rest nodes) a = Some n'"
    and "type n' = File"
  shows "lookup nodes a = Some n'"
  using assms
proof (induction rest arbitrary: pre nodes a)
  case Nil
  then show ?case by simp
next
  case (Cons part rest)
  let ?F = "insert_folder pre (part # rest) nodes"
  show ?case
  proof (cases "part = []")
    case True
    then show ?thesis
      using Cons by simp
  next
    case False
    obtain s a' where a: "a = s # a'"
      using Cons.prems(2) by (cases a) auto
    show ?thesis
    proof (cases "find_name part nodes")
      case None
      let ?C = "insert_folder (pre @ [part]) rest []"
      have F: "?F = nodes @ [TreeNode part (join (pre @ [part]) ''/'') Folder None (Some ?C)]"
        using False None by (simp add: Let_def)
      from Cons.prems(2)
      have L: "lookup (nodes @ [TreeNode part (join (pre @ [part]) ''/'') Folder None (Some ?C)]) a
                 = Some n'"
        unfolding F .
      show ?thesis
      proof (cases "find_name s nodes")
        case (Some m)
        then show ?thesis
          using L by (simp add: a lookup_Cons find_name_append)
      next
        case sNone: None
        then have s: "s = part"
          using L by (auto simp: a lookup_Cons find_name_append split: if_splits)
        have "a' \<noteq> []"
          using L sNone s Cons.prems(3) by (auto simp: a lookup_Cons find_name_append)
        then have "lookup ?C a' = Some n'"
          using L sNone s by (auto simp: a lookup_Cons find_name_append)
        then have "lookup [] a' = Some n'"
          using Cons.IH [of "[]" "pre @ [part]" a'] Cons.prems(3) by simp
        then show ?thesis
          by simp
      qed
    next
      case (Some existing)
      show ?thesis
      proof (cases "children existing")
        case None
        then have "?F = insert_folder (pre @ [part]) rest nodes"
          using False Some by (simp add: Let_def)
        then show ?thesis
          using Cons.IH [OF Cons.prems(1), of "pre @ [part]" a] Cons.prems(2,3) by simp
      next
        case ch: (Some ch)
        let ?C = "insert_folder (pre @ [part]) rest ch"
        have ex: "existing \<in> set nodes" "name existing = part"
          using find_name_Some [OF Some] by simp_all
        have folder: "type existing = Folder"
          using well_formed_type [OF Cons.prems(1) ex(1)] ch by (cases "type existing") auto
        have F: "?F = set_children part ?C nodes"
          using False Some ch by (simp add: Let_def)
        from Cons.prems(2) have L: "lookup (set_children part ?C nodes) a = Some n'"
          unfolding F .
        have wch: "well_formed ch"
          using well_formed_children [OF Cons.prems(1) ex(1) ch] .
        show ?thesis
        proof (cases "s = part")
          case False
          then show ?thesis
            using L by (simp add: a lookup_Cons find_name_set_children)
        next
          case s: True
          have "a' \<noteq> []"
            using L s Some folder Cons.prems(3) by (auto simp: a lookup_Cons find_name_set_children)
          then have "lookup ?C a' = Some n'"
            using L s Some by (auto simp: a lookup_Cons find_name_set_children)
          then have "lookup ch a' = Some n'"
            using Cons.IH [OF wch, of "pre @ [part]" a'] Cons.prems(3) by simp
          then show ?thesis
            using \<open>a' \<noteq> []\<close> s Some ch by (simp add: a lookup_Cons)
        qed
      qed
    qed
  qed
qed

lemma second_pass_file_lookup:
  "well_formed nodes \<Longrightarrow> lookup (second_pass objs nodes) a = Some n' \<Longrightarrow> type n' = File \<Longrightarrow>
     lookup nodes a = Some n'"
  unfolding second_pass_def
proof (induction objs arbitrary: nodes)
  case Nil
  then show ?case by simp
next
  case (Cons obj objs)
  let ?g = "\<lambda>root obj. if endsWith (key obj) ''/.keep''
              then insert_folder [] (split (replace_first (key obj) ''/.keep'') CHR ''/'') root
              else root"
  have wf: "well_formed (?g nodes obj)"
    using Cons.prems(1) by (simp add: well_formed_insert_folder)
  have "lookup (?g nodes obj) a = Some n'"
    using Cons.IH [OF wf] Cons.prems(2,3) by simp
  then show ?case
    using insert_folder_file_lookup [OF Cons.prems(1) _ Cons.prems(3)] by (auto split: if_splits)
qed

lemma second_pass_no_file_on:
  assumes "well_formed nodes" and "no_file_on nodes segs"
  shows "no_file_on (second_pass objs nodes) segs"
proof -
  have "case lookup (second_pass objs nodes) a of None \<Rightarrow> True | Some n \<Rightarrow> type n = Folder"
    if ne: "a \<noteq> []" and pre: "prefix a segs" for a
  proof (cases "lookup (second_pass objs nodes) a")
    case None
    then show ?thesis by simp
  next
    case (Some n')
    have "type n' \<noteq> File"
    proof
      assume f: "type n' = File"
      then have "lookup nodes a = Some n'"
        using second_pass_file_lookup [OF assms(1) Some] by simp
      then show False
        using assms(2) ne pre f unfolding no_file_on_def by (auto dest!: spec [of _ a])
    qed
    then show ?thesis
      using Some by (cases "type n'") auto
  qed
  then show ?thesis
    by (simp add: no_file_on_def)
qed

lemma covered_no_file_on:
  assumes "covered nodes ks" and "\<forall>k \<in> set ks. \<not> prefix k segs"
  shows "no_file_on nodes segs"
proof -
  have "case lookup nodes a of None \<Rightarrow> True | Some n \<Rightarrow> type n = Folder"
    if pre: "prefix a segs" for a
  proof (cases "lookup nodes a")
    case None
    then show ?thesis by simp
  next
    case (Some n)
    have "if type n = File then a \<in> set ks else (\<exists>k \<in> set ks. strict_prefix a k)"
      using assms(1) Some unfolding covered_def by blast
    then have "type n \<noteq> File"
      using assms(2) pre by auto
    then show ?thesis
      using Some by (cases "type n") auto
  qed
  then show ?thesis
    by (simp add: no_file_on_def)
qed

lemma second_pass_append:
  "second_pass (xs @ m # ys) nodes =
     second_pass ys
       (if endsWith (key m) ''/.keep''
        then insert_folder [] (split (replace_first (key m) ''/.keep'') CHR ''/'')
               (second_pass xs nodes)
        else second_pass xs nodes)"
  by (simp add: second_pass_def)

lemma marker_folders:
  fixes objects :: "'a R2ObjectItem_scheme list"
  assumes visible: "visible = filteredObjects objects True"
    and keys: "\<forall>obj \<in> set visible. key obj \<noteq> [] \<and> last (key obj) \<noteq> CHR ''/''"
    and free: "prefix_free (map (\<lambda>obj. segments (key obj)) visible)"
    and marker: "m \<in> set objects" "key m = p @ ''/.keep''" "\<not> str_includes p ''/.keep''"
    and clear: "\<forall>obj \<in> set visible. \<not> prefix (segments (key obj)) (segments p)"
    and a: "a \<noteq> []" "prefix a (segments p)"
  shows "\<exists>n. lookup (buildFileTree lc objects True) a = Some n \<and> type n = Folder \<and> name n = last a"
proof -
  let ?F1 = "first_pass visible"
  have cov: "covered ?F1 (map (\<lambda>obj. segments (key obj)) visible)"
    using first_pass_trie [OF keys free] by blast
  have nf1: "no_file_on ?F1 (segments p)"
    using covered_no_file_on [OF cov] clear by simp
  obtain xs ys where split: "objects = xs @ m # ys"
    using marker(1) by (meson split_list)
  let ?Fx = "second_pass xs ?F1"
  have wfx: "well_formed ?Fx"
    by (simp add: well_formed_second_pass well_formed_first_pass)
  have nfx: "no_file_on ?Fx (nonempty (split p CHR ''/''))"
    using second_pass_no_file_on [OF well_formed_first_pass nf1] by (simp add: segments_def)
  let ?Fm = "insert_folder [] (split p CHR ''/'') ?Fx"
  obtain n where n: "lookup ?Fm a = Some n" "type n = Folder" "name n = last a"
    using insert_folder_creates [OF wfx nfx, of "[]"] a by (auto simp: segments_def)
  have F2: "second_pass objects ?F1 = second_pass ys ?Fm"
    unfolding split second_pass_append
    using marker(2) replace_first_keep [OF marker(3)] by simp
  obtain n2 where n2: "lookup (second_pass objects ?F1) a = Some n2" "same_node n n2"
    using second_pass_kept [OF n(1), of ys] unfolding F2 by blast
  have "well_formed (second_pass objects ?F1)"
    by (simp add: well_formed_second_pass well_formed_first_pass)
  then obtain n3 where "lookup (sortNodes lc (second_pass objects ?F1)) a = Some n3" "same_node n2 n3"
    using sortNodes_kept n2(1) by blast
  then show ?thesis
    using n(2,3) n2(2) visible by (auto simp: buildFileTree_passes same_node_def)
qed

text \<open>
  The folder path of a marker is its key with the first occurrence of \<open>/.keep\<close>
  removed. When \<open>/.keep\<close> occurs earlier in the key than at its end, that is not the
  key without its last segment:
\<close>

lemma replace_first_example:
  "buildFileTree compareChars [\<lparr>key = ''a/.keepsake/.keep'', size_bytes = 0\<rparr>] True
     = [TreeNode ''asake'' ''asake'' Folder None
          (Some [TreeNode ''.keep'' ''asake/.keep'' Folder None (Some [])])]"
  by code_simp

text \<open>
  Claim C9, as the code has it, for \<open>hideKeepFiles\<close> true. No node of type \<open>file\<close>
  is named \<open>.keep\<close>, and every file node is the file node of an object that is not a
  marker: markers add folders only. Objects whose key is exactly \<open>.keep\<close> add nothing:
  the tree is that of the list without them. A marker whose key has \<open>/.keep\<close> at its
  end only adds its folder: when the other keys are as in claim C1 and none of them
  names a file on the way, every non-empty initial part of the segments before
  \<open>/.keep\<close> leads to a folder node named by its last segment, so a folder that holds
  nothing but the marker still appears.
\<close>

theorem keep_markers_hidden:
  fixes objects :: "'a R2ObjectItem_scheme list"
  assumes tree: "tree = buildFileTree localeCompare objects True"
    and visible: "visible = filteredObjects objects True"
  shows
    "(\<forall>n \<in> files tree. name n \<noteq> ''.keep''
        \<and> (\<exists>obj \<in> set objects. \<not> endsWith (key obj) ''/.keep'' \<and> key obj \<noteq> ''.keep''
              \<and> n = file_node obj))
     \<and> buildFileTree localeCompare (filter (\<lambda>obj. key obj \<noteq> ''.keep'') objects) True = tree
     \<and> ((\<forall>obj \<in> set visible. key obj \<noteq> [] \<and> last (key obj) \<noteq> CHR ''/'')
          \<and> prefix_free (map (\<lambda>obj. segments (key obj)) visible) \<longrightarrow>
        (\<forall>m \<in> set objects. \<forall>p.
            key m = p @ ''/.keep'' \<and> \<not> str_includes p ''/.keep''
            \<and> (\<forall>obj \<in> set visible. \<not> prefix (segments (key obj)) (segments p)) \<longrightarrow>
            (\<forall>a. a \<noteq> [] \<and> prefix a (segments p) \<longrightarrow>
               (\<exists>n. lookup tree a = Some n \<and> type n = Folder \<and> name n = last a))))"
proof -
  have one: "name n \<noteq> ''.keep''
        \<and> (\<exists>obj \<in> set objects. \<not> endsWith (key obj) ''/.keep'' \<and> key obj \<noteq> ''.keep''
              \<and> n = file_node obj)"
    if n: "n \<in> files tree" for n
  proof -
    obtain obj where obj: "obj \<in> set visible" "last (split (key obj) CHR ''/'') \<noteq> []"
      "n = TreeNode (last (split (key obj) CHR ''/'')) (key obj) File (Some (size_bytes obj)) None"
      using buildFileTree_files [of n localeCompare objects True] n tree visible by blast
    have vis: "obj \<in> set objects" "\<not> endsWith (key obj) ''/.keep''" "key obj \<noteq> ''.keep''"
      using obj(1) visible by (auto simp: filteredObjects_def)
    have "last (segments (key obj)) = last (split (key obj) CHR ''/'')"
      using nonempty_last [OF split_not_Nil obj(2)] by (simp add: segments_def)
    then have "n = file_node obj"
      using obj(3) by (simp add: file_node_def)
    moreover have "name n \<noteq> ''.keep''"
      using last_split_keep [of "key obj"] vis(2,3) obj(3) by auto
    ultimately show ?thesis
      using vis by blast
  qed
  have two: "buildFileTree localeCompare (filter (\<lambda>obj. key obj \<noteq> ''.keep'') objects) True = tree"
    using buildFileTree_drop_keep tree by simp
  have three: "\<exists>n. lookup tree a = Some n \<and> type n = Folder \<and> name n = last a"
    if "\<forall>obj \<in> set visible. key obj \<noteq> [] \<and> last (key obj) \<noteq> CHR ''/''"
      "prefix_free (map (\<lambda>obj. segments (key obj)) visible)"
      "m \<in> set objects" "key m = p @ ''/.keep''" "\<not> str_includes p ''/.keep''"
      "\<forall>obj \<in> set visible. \<not> prefix (segments (key obj)) (segments p)"
      "a \<noteq> []" "prefix a (segments p)" for m p a
    unfolding tree using marker_folders [OF visible that] .
  show ?thesis
    using one two three by blast
qed

theorem keep_markers_hidden_witness:
  "\<exists>n. lookup (buildFileTree compareChars example_objects True) [''empty''] = Some n
        \<and> type n = Folder \<and> name n = ''empty''"
proof -
  note t = keep_markers_hidden [OF refl refl, of compareChars example_objects]
  have k: "\<forall>obj \<in> set (filteredObjects example_objects True).
             key obj \<noteq> [] \<and> last (key obj) \<noteq> CHR ''/''"
    unfolding example_visible by simp
  have f: "prefix_free (map (\<lambda>obj. segments (key obj)) (filteredObjects example_objects True))"
    unfolding example_visible by code_simp
  have m: "\<lparr>key = ''empty/.keep'', size_bytes = 0\<rparr> \<in> set example_objects"
    by (simp add: example_objects_def)
  have s: "segments ''empty'' = [''empty'']"
    by code_simp
  have p: "key \<lparr>key = ''empty/.keep'', size_bytes = 0\<rparr> = ''empty'' @ ''/.keep''
      \<and> \<not> str_includes ''empty'' ''/.keep''
      \<and> (\<forall>obj \<in> set (filteredObjects example_objects True).
            \<not> prefix (segments (key obj)) (segments ''empty''))"
    unfolding example_visible by code_simp
  have a: "[''empty''] \<noteq> [] \<and> prefix [''empty''] (segments ''empty'')"
    by (simp add: s)
  have "\<exists>n. lookup (buildFileTree compareChars example_objects True) [''empty''] = Some n
        \<and> type n = Folder \<and> name n = last [''empty'']"
    using t [THEN conjunct2, THEN conjunct2, rule_format, OF conjI [OF k f] m p a] .
  then show ?thesis
    using t [THEN conjunct1] by auto
qed

text \<open>
  A node named \<open>.keep\<close> can appear all the same, as a folder: the filter looks at
  whole keys, not at segments.
\<close>

theorem keep_folder_counterexample:
  "map name (all_nodes (buildFileTree compareChars [\<lparr>key = ''.keep/a'', size_bytes = 1\<rparr>] True))
     = [''.keep'', ''a'']"
  by code_simp

section \<open>Properties of the file tree: determinism and the collation of the host\<close>

lemma insert_sorted_cong:
  "\<forall>y\<in>set ys. (c x y \<le> 0) = (c' x y \<le> 0) \<Longrightarrow> insert_sorted c x ys = insert_sorted c' x ys"
  by (induction ys) simp_all

lemma Array_sort_cong:
  "\<forall>x\<in>set xs. \<forall>y\<in>set xs. (c x y \<le> 0) = (c' x y \<le> 0) \<Longrightarrow> Array_sort c xs = Array_sort c' xs"
proof (induction xs)
  case Nil
  show ?case by (simp add: Array_sort_def)
next
  case (Cons x xs)
  have step: "Array_sort d (x # xs) = insert_sorted d x (Array_sort d xs)" for d
    by (simp add: Array_sort_def)
  have tl: "Array_sort c xs = Array_sort c' xs"
    using Cons.prems by (intro Cons.IH) simp
  have "\<forall>y\<in>set (Array_sort c' xs). (c x y \<le> 0) = (c' x y \<le> 0)"
    using Cons.prems by (simp add: set_Array_sort)
  then show ?case
    by (simp only: step tl insert_sorted_cong)
qed

lemma all_nodes_member: "n \<in> set nodes \<Longrightarrow> n \<in> set (all_nodes nodes)"
  by (induction nodes) (auto simp: all_nodes_Cons)

lemma all_nodes_children:
  "n \<in> set nodes \<Longrightarrow> children n = Some ch \<Longrightarrow> set (all_nodes ch) \<subseteq> set (all_nodes nodes)"
  by (induction nodes) (auto simp: all_nodes_Cons)

lemma node_names_children:
  "n \<in> set nodes \<Longrightarrow> children n = Some ch \<Longrightarrow> node_names ch \<subseteq> node_names nodes"
  using all_nodes_children [of n nodes ch] by (auto simp: node_names_def)

lemma node_names_member: "n \<in> set nodes \<Longrightarrow> name n \<in> node_names nodes"
  using all_nodes_member [of n nodes] by (simp add: node_names_def)

lemma sortNodes_cong:
  "\<forall>a\<in>node_names nodes. \<forall>b\<in>node_names nodes. (lc a b \<le> 0) = (lc' a b \<le> 0) \<Longrightarrow>
     sortNodes lc nodes = sortNodes lc' nodes"
proof (induction lc nodes rule: sortNodes.induct)
  case (1 lc nodes)
  have "\<forall>x\<in>set nodes. \<forall>y\<in>set nodes.
      (compareNodes lc x y \<le> 0) = (compareNodes lc' x y \<le> 0)"
    using "1.prems" node_names_member [of _ nodes] by (simp add: compareNodes_def)
  then have sorted: "Array_sort (compareNodes lc) nodes = Array_sort (compareNodes lc') nodes"
    by (rule Array_sort_cong)
  have "sorted_node lc n = sorted_node lc' n" if n: "n \<in> set nodes" for n
  proof (cases "children n")
    case None
    then show ?thesis by (simp add: sorted_node_def)
  next
    case (Some ch)
    have "\<forall>a\<in>node_names ch. \<forall>b\<in>node_names ch. (lc a b \<le> 0) = (lc' a b \<le> 0)"
      using "1.prems" node_names_children [OF n Some] by blast
    then have "sortNodes lc ch = sortNodes lc' ch"
      using "1.IH" [of n ch] n Some by (simp add: set_Array_sort)
    then show ?thesis
      by (simp add: sorted_node_def Some)
  qed
  then have "map (sorted_node lc) (Array_sort (compareNodes lc') nodes)
      = map (sorted_node lc') (Array_sort (compareNodes lc') nodes)"
    by (simp add: set_Array_sort)
  then show ?case
    by (simp add: sortNodes_unfold sorted)
qed

lemma node_names_sortNodes: "node_names (sortNodes lc nodes) = node_names nodes"
proof (induction lc nodes rule: sortNodes.induct)
  case (1 lc nodes)
  have names: "name ` set (case children (sorted_node lc n) of None \<Rightarrow> [] | Some ch \<Rightarrow> all_nodes ch)
      = name ` set (case children n of None \<Rightarrow> [] | Some ch \<Rightarrow> all_nodes ch)"
    if n: "n \<in> set nodes" for n
  proof (cases "children n")
    case None
    then show ?thesis by simp
  next
    case (Some ch)
    have "node_names (sortNodes lc ch) = node_names ch"
      using "1.IH" [of n ch] n Some by (simp add: set_Array_sort)
    then show ?thesis
      by (simp add: Some node_names_def)
  qed
  have sub: "node_names (map (sorted_node lc) xs) = node_names xs" if "set xs \<subseteq> set nodes" for xs
    using that
  proof (induction xs)
    case Nil
    show ?case by (simp add: node_names_def)
  next
    case (Cons x xs)
    have "node_names (map (sorted_node lc) xs) = node_names xs"
      using Cons by simp
    moreover have "x \<in> set nodes"
      using Cons.prems by simp
    ultimately show ?case
      using names [of x] by (simp add: node_names_def all_nodes_Cons image_Un)
  qed
  have perm: "node_names (Array_sort c xs) = node_names xs" for c xs
  proof (induction xs)
    case Nil
    show ?case by (simp add: Array_sort_def)
  next
    case (Cons x xs)
    have ins: "node_names (insert_sorted c x ys) = node_names (x # ys)" for ys
      by (induction ys) (auto simp: node_names_def all_nodes_Cons)
    have "Array_sort c (x # xs) = insert_sorted c x (Array_sort c xs)"
      by (simp add: Array_sort_def)
    then show ?case
      using Cons ins [of "Array_sort c xs"]
      by (simp add: node_names_def all_nodes_Cons image_Un)
  qed
  have "node_names (sortNodes lc nodes)
      = node_names (Array_sort (compareNodes lc) nodes)"
    unfolding sortNodes_unfold by (rule sub) (simp add: set_Array_sort)
  then show ?case
    by (simp add: perm)
qed

lemma compareFolded_consistent: "consistent compareFolded"
  unfolding consistent_def compareFolded_def
  using compareChars_total compareChars_trans by blast

text \<open>
  Claim C7, as the code has it. The builder keeps no state and reads of the objects
  only the keys and the sizes, but it orders the siblings with \<open>localeCompare\<close>, which
  consults the collation of the host. Two calls whose object lists agree on keys and
  sizes (whatever else the objects carry) and whose flags agree return equal trees
  whenever the collations in force at the two calls, each a total preorder, agree on
  which of any two names occurring in the tree comes first; in particular under one
  and the same collation.
\<close>

theorem buildFileTree_deterministic:
  fixes objects :: "'a R2ObjectItem_scheme list" and objects' :: "'b R2ObjectItem_scheme list"
  assumes "map key objects = map key objects'"
    and "map size_bytes objects = map size_bytes objects'"
    and "hideKeepFiles = hideKeepFiles'"
    and "consistent localeCompare" and "consistent localeCompare'"
    and "\<forall>a\<in>node_names (buildFileTree localeCompare objects hideKeepFiles).
         \<forall>b\<in>node_names (buildFileTree localeCompare objects hideKeepFiles).
           (localeCompare a b \<le> 0) = (localeCompare' a b \<le> 0)"
  shows "buildFileTree localeCompare objects hideKeepFiles
           = buildFileTree localeCompare' objects' hideKeepFiles'"
proof -
  obtain nodes where a: "buildFileTree localeCompare objects hideKeepFiles
        = sortNodes localeCompare nodes"
    and b: "buildFileTree localeCompare' objects' hideKeepFiles'
        = sortNodes localeCompare' nodes"
    by (simp add: buildFileTree_pairs assms(1,2,3))
  have "\<forall>a\<in>node_names nodes. \<forall>b\<in>node_names nodes.
      (localeCompare a b \<le> 0) = (localeCompare' a b \<le> 0)"
    using assms(6) by (simp only: a node_names_sortNodes)
  then show ?thesis
    unfolding a b by (rule sortNodes_cong)
qed

lemma example_names:
  "map name (all_nodes (buildFileTree compareChars
      [\<lparr>key = ''docs/a.txt'', size_bytes = 3, uploaded = ''2024-03-09''\<rparr>,
       \<lparr>key = ''docs/.keep'', size_bytes = 0, uploaded = ''2024-03-10''\<rparr>] True))
   = [''docs'', ''a.txt'']"
  by code_simp

lemma example_names_agree:
  "list_all (\<lambda>a. list_all (\<lambda>b. (compareChars a b \<le> 0) = (compareFolded a b \<le> 0))
      [''docs'', ''a.txt'']) [''docs'', ''a.txt'']"
  by code_simp

theorem buildFileTree_deterministic_witness:
  "buildFileTree compareChars
      [\<lparr>key = ''docs/a.txt'', size_bytes = 3, uploaded = ''2024-03-09''\<rparr>,
       \<lparr>key = ''docs/.keep'', size_bytes = 0, uploaded = ''2024-03-10''\<rparr>] True
   = buildFileTree compareFolded
      [\<lparr>key = ''docs/a.txt'', size_bytes = 3\<rparr>, \<lparr>key = ''docs/.keep'', size_bytes = 0\<rparr>] True
   \<and> buildFileTree compareFolded
      [\<lparr>key = ''docs/a.txt'', size_bytes = 3\<rparr>, \<lparr>key = ''docs/.keep'', size_bytes = 0\<rparr>] True
   = [TreeNode ''docs'' ''docs'' Folder None
        (Some [TreeNode ''a.txt'' ''docs/a.txt'' File (Some 3) None])]"
proof -
  have tree: "buildFileTree compareFolded
      [\<lparr>key = ''docs/a.txt'', size_bytes = 3\<rparr>, \<lparr>key = ''docs/.keep'', size_bytes = 0\<rparr>] True
   = [TreeNode ''docs'' ''docs'' Folder None
        (Some [TreeNode ''a.txt'' ''docs/a.txt'' File (Some 3) None])]"
    by code_simp
  have names: "node_names (buildFileTree compareChars
      [\<lparr>key = ''docs/a.txt'', size_bytes = 3, uploaded = ''2024-03-09''\<rparr>,
       \<lparr>key = ''docs/.keep'', size_bytes = 0, uploaded = ''2024-03-10''\<rparr>] True)
    = {''docs'', ''a.txt''}"
    unfolding node_names_def set_map [symmetric] example_names by simp
  have agree: "\<forall>a\<in>node_names (buildFileTree compareChars
         [\<lparr>key = ''docs/a.txt'', size_bytes = 3, uploaded = ''2024-03-09''\<rparr>,
          \<lparr>key = ''docs/.keep'', size_bytes = 0, uploaded = ''2024-03-10''\<rparr>] True).
      \<forall>b\<in>node_names (buildFileTree compareChars
         [\<lparr>key = ''docs/a.txt'', size_bytes = 3, uploaded = ''2024-03-09''\<rparr>,
          \<lparr>key = ''docs/.keep'', size_bytes = 0, uploaded = ''2024-03-10''\<rparr>] True).
      (compareChars a b \<le> 0) = (compareFolded a b \<le> 0)"
    unfolding names using example_names_agree by simp
  have keys: "map key [\<lparr>key = ''docs/a.txt'', size_bytes = 3, uploaded = ''2024-03-09''\<rparr>,
                       \<lparr>key = ''docs/.keep'', size_bytes = 0, uploaded = ''2024-03-10''\<rparr>]
      = map key [\<lparr>key = ''docs/a.txt'', size_bytes = 3\<rparr>, \<lparr>key = ''docs/.keep'', size_bytes = 0\<rparr>]"
    by simp
  have sizes: "map size_bytes
        [\<lparr>key = ''docs/a.txt'', size_bytes = 3, uploaded = ''2024-03-09''\<rparr>,
         \<lparr>key = ''docs/.keep'', size_bytes = 0, uploaded = ''2024-03-10''\<rparr>]
      = map size_bytes
          [\<lparr>key = ''docs/a.txt'', size_bytes = 3\<rparr>, \<lparr>key = ''docs/.keep'', size_bytes = 0\<rparr>]"
    by simp
  have "buildFileTree compareChars
      [\<lparr>key = ''docs/a.txt'', size_bytes = 3, uploaded = ''2024-03-09''\<rparr>,
       \<lparr>key = ''docs/.keep'', size_bytes = 0, uploaded = ''2024-03-10''\<rparr>] True
   = buildFileTree compareFolded
      [\<lparr>key = ''docs/a.txt'', size_bytes = 3\<rparr>, \<lparr>key = ''docs/.keep'', size_bytes = 0\<rparr>] True"
    by (rule buildFileTree_deterministic [OF keys sizes refl compareChars_consistent
          compareFolded_consistent agree])
  then show ?thesis
    using tree by (rule conjI)
qed

text \<open>
  The collation is state outside the arguments, and the tree does depend on it: for
  the keys \<open>B\<close> and \<open>a\<close> the order of the character codes puts \<open>B\<close> first, the
  case-folding collation puts \<open>a\<close> first, so the same object list and the same flag
  give two different trees.
\<close>

theorem collation_counterexample:
  "buildFileTree compareChars mixed_case_objects False
     = [TreeNode ''B'' ''B'' File (Some 1) None, TreeNode ''a'' ''a'' File (Some 2) None]
   \<and> buildFileTree compareFolded mixed_case_objects False
     = [TreeNode ''a'' ''a'' File (Some 2) None, TreeNode ''B'' ''B'' File (Some 1) None]
   \<and> buildFileTree compareChars mixed_case_objects False
     \<noteq> buildFileTree compareFolded mixed_case_objects False"
proof -
  have a: "buildFileTree compareChars mixed_case_objects False
     = [TreeNode ''B'' ''B'' File (Some 1) None, TreeNode ''a'' ''a'' File (Some 2) None]"
    by code_simp
  have b: "buildFileTree compareFolded mixed_case_objects False
     = [TreeNode ''a'' ''a'' File (Some 2) None, TreeNode ''B'' ''B'' File (Some 1) None]"
    by code_simp
  show ?thesis
    unfolding a b by simp
qed

end
